theory Spec2Isabelle
  imports Main "HOL-Library.Log_Nat" "HOL-Library.Sublist"
begin

section \<open>JavaScript numbers\<close>

text \<open>
  The source computes with JavaScript numbers (IEEE 754 binary64). A number is \<open>NaN\<close>,
  one of the two infinities, or a finite double, held as the rational it denotes.
  Negative zero is not represented: the source only uses \<open>parseFloat(x) || 0\<close>, which
  maps both zeros to \<open>0\<close>, and sums and differences of values other than \<open>-0\<close> are
  never \<open>-0\<close>. Results are rounded to the nearest double, ties to even, as \<open>+\<close> and
  \<open>-\<close> do and as the engines do when they read a decimal literal.
\<close>

datatype number = NaN | PInf | NInf | Fin rat

text \<open>\<open>ilog2 x\<close> is the binary exponent \<open>\<lfloor>log\<^sub>2 x\<rfloor>\<close> of a positive rational.\<close>

definition ilog2 :: "rat \<Rightarrow> int" where
  "ilog2 x = (if 1 \<le> x then bitlen \<lfloor>x\<rfloor> - 1 else - bitlen (\<lceil>1 / x\<rceil> - 1))"

text \<open>Rounding to the nearest integer, ties to the even one.\<close>

definition round_even :: "rat \<Rightarrow> int" where
  "round_even y =
     (let f = \<lfloor>y\<rfloor>; r = y - of_int f
      in if r < 1 / 2 then f else if 1 / 2 < r then f + 1 else if even f then f else f + 1)"

text \<open>
  The Number value for a positive rational: the nearest double (53 significant bits,
  least exponent \<open>-1074\<close>), ties to even, and \<open>Infinity\<close> from \<open>2\<^sup>1\<^sup>0\<^sup>2\<^sup>4\<close> on.
\<close>

definition number_value_pos :: "rat \<Rightarrow> number" where
  "number_value_pos x =
     (let g = max (ilog2 x - 52) (- 1074);
          y = of_int (round_even (x / 2 powi g)) * 2 powi g
      in if 2 powi 1024 \<le> y then PInf else Fin y)"

fun neg :: "number \<Rightarrow> number" where
  "neg NaN = NaN"
| "neg PInf = NInf"
| "neg NInf = PInf"
| "neg (Fin x) = Fin (- x)"

definition number_value :: "rat \<Rightarrow> number" where
  "number_value x =
     (if x = 0 then Fin 0
      else if 0 < x then number_value_pos x
      else neg (number_value_pos (- x)))"

text \<open>The operators \<open>+\<close> and \<open>-\<close> on numbers.\<close>

fun add :: "number \<Rightarrow> number \<Rightarrow> number" where
  "add NaN _ = NaN"
| "add _ NaN = NaN"
| "add PInf NInf = NaN"
| "add NInf PInf = NaN"
| "add PInf _ = PInf"
| "add _ PInf = PInf"
| "add NInf _ = NInf"
| "add _ NInf = NInf"
| "add (Fin x) (Fin y) = number_value (x + y)"

definition sub :: "number \<Rightarrow> number \<Rightarrow> number" where
  "sub a b = add a (neg b)"

text \<open>\<open>x || 0\<close> on a number: \<open>NaN\<close> and zero are falsy.\<close>

definition or_zero :: "number \<Rightarrow> number" where
  "or_zero x = (if x = NaN \<or> x = Fin 0 then Fin 0 else x)"

section \<open>Strings\<close>

text \<open>
  A cell is a \<open>string\<close>; its characters stand for the UTF-16 code units below 256.
  The white space and line terminators of ECMAScript in that range are TAB, LF, VT, FF,
  CR, SP and NBSP.
\<close>

definition isWhiteSpace :: "char \<Rightarrow> bool" where
  "isWhiteSpace c \<longleftrightarrow> c \<in> set [CHR 0x09, CHR 0x0A, CHR 0x0B, CHR 0x0C, CHR 0x0D, CHR 0x20, CHR 0xA0]"

definition trimStart :: "string \<Rightarrow> string" where
  "trimStart s = dropWhile isWhiteSpace s"

definition trim :: "string \<Rightarrow> string" where
  "trim s = rev (dropWhile isWhiteSpace (rev (dropWhile isWhiteSpace s)))"

text \<open>\<open>s.indexOf(pat)\<close>: the least index at which \<open>pat\<close> occurs in \<open>s\<close>, or \<open>-1\<close>.\<close>

fun indexOf_from :: "nat \<Rightarrow> string \<Rightarrow> string \<Rightarrow> int" where
  "indexOf_from i [] pat = (if pat = [] then int i else - 1)"
| "indexOf_from i (c # cs) pat =
     (if prefix pat (c # cs) then int i else indexOf_from (Suc i) cs pat)"

definition indexOf :: "string \<Rightarrow> string \<Rightarrow> int" where
  "indexOf s pat = indexOf_from 0 s pat"

text \<open>
  \<open>s.substring(start, end)\<close>: both indices are clamped to \<open>0 .. s.length\<close> and
  swapped when \<open>start > end\<close>; \<open>s.substring(start)\<close> runs to the end of \<open>s\<close>.
\<close>

definition substring :: "string \<Rightarrow> int \<Rightarrow> int \<Rightarrow> string" where
  "substring s start end =
     (let len = int (length s);
          a = min (max start 0) len;
          b = min (max end 0) len
      in take (nat (max a b - min a b)) (drop (nat (min a b)) s))"

definition substring_from :: "string \<Rightarrow> int \<Rightarrow> string" where
  "substring_from s start = substring s start (int (length s))"

section \<open>parseFloat\<close>

definition isDigit :: "char \<Rightarrow> bool" where
  "isDigit c \<longleftrightarrow> c \<in> set ''0123456789''"

definition digit_value :: "char \<Rightarrow> int" where
  "digit_value c = of_char c - of_char (CHR ''0'')"

text \<open>The value of a string of decimal digits (0 for the empty string).\<close>

definition digits_value :: "string \<Rightarrow> int" where
  "digits_value ds = foldl (\<lambda>n c. 10 * n + digit_value c) 0 ds"

text \<open>
  The exponent part \<open>e\<close> or \<open>E\<close>, an optional sign and at least one digit; it counts
  only when complete, otherwise the literal ends before it.
\<close>

definition exponent_part :: "string \<Rightarrow> int" where
  "exponent_part s =
     (case s of
        [] \<Rightarrow> 0
      | c # r \<Rightarrow>
          if c = CHR ''e'' \<or> c = CHR ''E'' then
            (case r of
               [] \<Rightarrow> 0
             | d # r' \<Rightarrow>
                 if d = CHR ''+'' then digits_value (takeWhile isDigit r')
                 else if d = CHR ''-'' then - digits_value (takeWhile isDigit r')
                 else digits_value (takeWhile isDigit r))
          else 0)"

text \<open>
  The unsigned literal at the start of \<open>u\<close>: \<open>Infinity\<close>, or digits with an optional
  fraction and exponent, or a fraction that starts with the point. The result is the
  exact decimal value; \<open>None\<close> when no prefix of \<open>u\<close> is a literal.
\<close>

definition unsigned_literal :: "string \<Rightarrow> number option" where
  "unsigned_literal u =
     (if prefix ''Infinity'' u then Some PInf
      else
        let ip = takeWhile isDigit u;
            r1 = dropWhile isDigit u;
            fp = (case r1 of [] \<Rightarrow> [] | c # r \<Rightarrow> if c = CHR ''.'' then takeWhile isDigit r else []);
            r2 = (case r1 of [] \<Rightarrow> [] | c # r \<Rightarrow> if c = CHR ''.'' then dropWhile isDigit r else r1)
        in if ip = [] \<and> fp = [] then None
           else Some (number_value
                  (of_int (digits_value (ip @ fp)) * 10 powi (exponent_part r2 - int (length fp)))))"

text \<open>
  \<open>parseFloat(s)\<close>: leading white space is dropped, then the longest prefix that is a
  decimal literal is read, whatever follows it; \<open>NaN\<close> when there is none.
\<close>

definition parseFloat :: "string \<Rightarrow> number" where
  "parseFloat s =
     (case trimStart s of
        [] \<Rightarrow> NaN
      | c # r \<Rightarrow>
          if c = CHR ''-'' then (case unsigned_literal r of None \<Rightarrow> NaN | Some v \<Rightarrow> neg v)
          else if c = CHR ''+'' then (case unsigned_literal r of None \<Rightarrow> NaN | Some v \<Rightarrow> v)
          else (case unsigned_literal (c # r) of None \<Rightarrow> NaN | Some v \<Rightarrow> v))"

section \<open>The inventory item and the accumulator object\<close>

text \<open>
  \<open>OCIConsumptionRow\<close> of \<open>types.ts\<close>. Its optional fields \<open>region\<close> and \<open>shape\<close> are
  never set by \<open>processCSVData\<close> and are left out.
\<close>

record OCIConsumptionRow =
  sku :: string
  productName :: string
  usageAmount :: number
  unit :: string
  cost :: number

text \<open>
  \<open>skuMap\<close> is an object literal \<open>{}\<close> used as a dictionary. Its own properties are
  held in creation order. A read \<open>skuMap[key]\<close> that finds no own property goes on to
  \<open>Object.prototype\<close>, whose properties are all functions or objects, hence truthy.
\<close>

type_synonym skuMap = "(string \<times> OCIConsumptionRow) list"

definition Object_prototype_keys :: "string list" where
  "Object_prototype_keys =
     [''constructor'', ''__defineGetter__'', ''__defineSetter__'', ''hasOwnProperty'',
      ''__lookupGetter__'', ''__lookupSetter__'', ''isPrototypeOf'', ''propertyIsEnumerable'',
      ''toString'', ''valueOf'', ''__proto__'', ''toLocaleString'']"

text \<open>The truth value of \<open>skuMap[skuId]\<close> in \<open>if (skuMap[skuId])\<close>.\<close>

definition truthy_at :: "skuMap \<Rightarrow> string \<Rightarrow> bool" where
  "truthy_at skuMap skuId \<longleftrightarrow>
     (case map_of skuMap skuId of
        Some item \<Rightarrow> True
      | None \<Rightarrow> skuId \<in> set Object_prototype_keys)"

text \<open>
  \<open>skuMap[skuId].usageAmount += usage; skuMap[skuId].cost += cost\<close>. On an own
  property the item is updated in place. On an inherited one the two assignments land
  on the inherited object, and \<open>skuMap\<close> keeps its own properties. (For the key
  \<open>__proto__\<close> that object is \<open>Object.prototype\<close> itself, which then holds \<open>NaN\<close> under
  \<open>usageAmount\<close> and \<open>cost\<close>; \<open>NaN\<close> is falsy, so no later read changes its outcome.)
\<close>

definition add_to_item :: "skuMap \<Rightarrow> string \<Rightarrow> number \<Rightarrow> number \<Rightarrow> skuMap" where
  "add_to_item skuMap skuId usage cst =
     map (\<lambda>(key, item).
            if key = skuId
            then (key, item\<lparr>usageAmount := add (usageAmount item) usage,
                               cost := add (cost item) cst\<rparr>)
            else (key, item)) skuMap"

text \<open>
  \<open>Object.values\<close>: the own properties whose key is an array index (the canonical
  decimal string of an integer below \<open>2\<^sup>3\<^sup>2 - 1\<close>) come first, by ascending index, then
  the others in creation order.
\<close>

definition array_index :: "string \<Rightarrow> int option" where
  "array_index key =
     (if key \<noteq> [] \<and> list_all isDigit key \<and> (key = ''0'' \<or> hd key \<noteq> CHR ''0'')
         \<and> digits_value key < 2 ^ 32 - 1
      then Some (digits_value key) else None)"

definition Object_values :: "skuMap \<Rightarrow> OCIConsumptionRow list" where
  "Object_values skuMap =
     map snd (sort_key (\<lambda>(key, item). the (array_index key))
                (filter (\<lambda>(key, item). array_index key \<noteq> None) skuMap))
     @ map snd (filter (\<lambda>(key, item). array_index key = None) skuMap)"

section \<open>Array.prototype.sort\<close>

text \<open>The comparator \<open>(a, b) => b.cost - a.cost\<close>.\<close>

definition comparefn :: "OCIConsumptionRow \<Rightarrow> OCIConsumptionRow \<Rightarrow> number" where
  "comparefn a b = sub (cost b) (cost a)"

text \<open>
  \<open>sort\<close> reads a \<open>NaN\<close> from the comparator as \<open>+0\<close>, puts \<open>x\<close> after \<open>y\<close> when the
  comparator is positive on \<open>(x, y)\<close>, and is stable. With a consistent comparator
  that fixes the result, which is the one of a stable insertion sort; with an
  inconsistent one the order is left to the engine, and the insertion sort is one
  such order.
\<close>

definition comes_after :: "OCIConsumptionRow \<Rightarrow> OCIConsumptionRow \<Rightarrow> bool" where
  "comes_after x y \<longleftrightarrow>
     (case comparefn x y of NaN \<Rightarrow> False | PInf \<Rightarrow> True | NInf \<Rightarrow> False | Fin v \<Rightarrow> 0 < v)"

fun insert_item :: "OCIConsumptionRow \<Rightarrow> OCIConsumptionRow list \<Rightarrow> OCIConsumptionRow list" where
  "insert_item x [] = [x]"
| "insert_item x (y # ys) = (if comes_after x y then y # insert_item x ys else x # y # ys)"

definition array_sort :: "OCIConsumptionRow list \<Rightarrow> OCIConsumptionRow list" where
  "array_sort xs = foldr insert_item xs []"

section \<open>processCSVData\<close>

text \<open>The two lines that split the description cell.\<close>

definition skuId_of :: "string \<Rightarrow> string" where
  "skuId_of fullSkuString =
     (let firstDash = indexOf fullSkuString '' - ''
      in if firstDash \<noteq> - 1 then trim (substring fullSkuString 0 firstDash)
         else trim fullSkuString)"

definition productName_of :: "string \<Rightarrow> string" where
  "productName_of fullSkuString =
     (let firstDash = indexOf fullSkuString '' - ''
      in if firstDash \<noteq> - 1 then trim (substring_from fullSkuString (firstDash + 3))
         else trim fullSkuString)"

text \<open>
  The callback of \<open>rows.forEach\<close>, as a function from \<open>skuMap\<close> to \<open>skuMap\<close>. A row is an
  array of strings, so \<open>!row\<close> is false, and \<open>!fullSkuString\<close> holds for the empty
  string only.
\<close>

definition forEach_body :: "skuMap \<Rightarrow> string list \<Rightarrow> skuMap" where
  "forEach_body skuMap row =
     (if length row < 9 then skuMap
      else
        let fullSkuString = row ! 2
        in if fullSkuString = [] then skuMap
           else
             let skuId = skuId_of fullSkuString;
                 productName = productName_of fullSkuString;
                 usage = or_zero (parseFloat (row ! 4));
                 cst = or_zero (parseFloat (row ! 8))
             in if truthy_at skuMap skuId then add_to_item skuMap skuId usage cst
                else skuMap @ [(skuId, \<lparr>sku = skuId, productName = productName,
                                         usageAmount = usage, unit = row ! 3, cost = cst\<rparr>)])"

text \<open>\<open>data[0][0] === "Subscription Plan Number" ? data.slice(1) : data\<close>, for non-empty \<open>data\<close>.\<close>

definition rows_of :: "string list list \<Rightarrow> string list list" where
  "rows_of data =
     (case data of
        [] \<Rightarrow> data
      | first # rest \<Rightarrow>
          (case first of
             [] \<Rightarrow> data
           | cell # cells \<Rightarrow> if cell = ''Subscription Plan Number'' then rest else data))"

definition aggregatedData :: "string list list \<Rightarrow> OCIConsumptionRow list" where
  "aggregatedData rows = array_sort (Object_values (foldl forEach_body [] rows))"

text \<open>
  The part of the application state that \<open>processCSVData\<close> writes; \<open>data\<close> is
  \<open>results.data\<close>, the rows that the CSV parser hands over. The function returns at
  once on empty \<open>data\<close>; otherwise it stores the aggregated rows, and the call of
  \<open>runAnalysisWithData\<close> sets the step to \<open>searching\<close> before its first \<open>await\<close>. What
  follows that \<open>await\<close> (the calls of the external service, which never write
  \<open>consumptionData\<close>) is not part of the model.
\<close>

datatype AnalysisStep = idle | parsing | searching | mapping | insights | complete

record AppState =
  consumptionData :: "OCIConsumptionRow list"
  isLoading :: bool
  analysisStep :: AnalysisStep

definition processCSVData :: "string list list \<Rightarrow> AppState \<Rightarrow> AppState" where
  "processCSVData data prev =
     (if length data = 0 then prev
      else
        let shown = prev\<lparr>consumptionData := aggregatedData (rows_of data),
                        isLoading := False, analysisStep := idle\<rparr>
        in shown\<lparr>analysisStep := searching\<rparr>)"

section \<open>Notions used to state the properties\<close>

text \<open>A row passes the two guards of the callback.\<close>

definition passes_guards :: "string list \<Rightarrow> bool" where
  "passes_guards row \<longleftrightarrow> 9 \<le> length row \<and> row ! 2 \<noteq> []"

text \<open>The id, quantity and amount that the callback extracts from a row.\<close>

definition row_id :: "string list \<Rightarrow> string" where
  "row_id row = skuId_of (row ! 2)"

definition row_usage :: "string list \<Rightarrow> number" where
  "row_usage row = or_zero (parseFloat (row ! 4))"

definition row_cost :: "string list \<Rightarrow> number" where
  "row_cost row = or_zero (parseFloat (row ! 8))"

text \<open>The rows of a sequence that pass the guards and carry a given id, in order.\<close>

definition rows_with :: "string \<Rightarrow> string list list \<Rightarrow> string list list" where
  "rows_with key rows = filter (\<lambda>row. passes_guards row \<and> row_id row = key) rows"

text \<open>\<open>a >= b\<close> on numbers: false as soon as one side is \<open>NaN\<close>.\<close>

fun number_ge :: "number \<Rightarrow> number \<Rightarrow> bool" where
  "number_ge NaN _ = False"
| "number_ge _ NaN = False"
| "number_ge PInf _ = True"
| "number_ge _ NInf = True"
| "number_ge NInf _ = False"
| "number_ge _ PInf = False"
| "number_ge (Fin x) (Fin y) = (y \<le> x)"

definition descending_by_cost :: "OCIConsumptionRow list \<Rightarrow> bool" where
  "descending_by_cost items = sorted_wrt (\<lambda>a b. number_ge (cost a) (cost b)) items"

text \<open>
  The finite doubles are multiples of \<open>2\<^sup>-\<^sup>1\<^sup>0\<^sup>7\<^sup>4\<close>. A number is representable when it is
  \<open>NaN\<close>, an infinity, or lies on that grid; this is what the proofs need to know about
  the results of \<open>parseFloat\<close> and \<open>+\<close>.
\<close>

definition on_grid :: "rat \<Rightarrow> bool" where
  "on_grid x \<longleftrightarrow> of_int \<lfloor>x * 2 powi 1074\<rfloor> = x * 2 powi 1074"

definition representable :: "number \<Rightarrow> bool" where
  "representable n = (case n of Fin x \<Rightarrow> on_grid x | _ \<Rightarrow> True)"

section \<open>The grammar of decimal literals\<close>

text \<open>
  ECMAScript defines \<open>parseFloat\<close> by a grammar: after the leading white space it takes
  the longest prefix that is a \<open>StrDecimalLiteral\<close> and returns the Number value of
  the mathematical value of that literal. The grammar and the value are written down here
  from that definition, independently of the parser above, to state what the parser
  computes. A literal is an optional sign followed by \<open>Infinity\<close> or by a mantissa
  (digits; digits, a point and optional digits; a point and digits) with an optional
  exponent part (\<open>e\<close> or \<open>E\<close>, an optional sign, digits).
\<close>

datatype lit_sign = NoSign | PlusSign | MinusSign

datatype lit_mantissa = Digits string | DigitsDot string string | DotDigits string

datatype lit_exponent = NoExponent | Exponent char lit_sign string

datatype str_literal = InfinityLiteral lit_sign | DecimalLiteral lit_sign lit_mantissa lit_exponent

text \<open>The text of a literal.\<close>

fun sign_text :: "lit_sign \<Rightarrow> string" where
  "sign_text NoSign = []"
| "sign_text PlusSign = ''+''"
| "sign_text MinusSign = ''-''"

fun mantissa_text :: "lit_mantissa \<Rightarrow> string" where
  "mantissa_text (Digits ip) = ip"
| "mantissa_text (DigitsDot ip fp) = ip @ ''.'' @ fp"
| "mantissa_text (DotDigits fp) = ''.'' @ fp"

fun exponent_text :: "lit_exponent \<Rightarrow> string" where
  "exponent_text NoExponent = []"
| "exponent_text (Exponent c sg es) = c # sign_text sg @ es"

fun literal_text :: "str_literal \<Rightarrow> string" where
  "literal_text (InfinityLiteral sg) = sign_text sg @ ''Infinity''"
| "literal_text (DecimalLiteral sg m ex) = sign_text sg @ mantissa_text m @ exponent_text ex"

text \<open>The side conditions of the grammar: where it asks for digits there is at least one.\<close>

definition decimal_digits :: "string \<Rightarrow> bool" where
  "decimal_digits ds \<longleftrightarrow> ds \<noteq> [] \<and> list_all isDigit ds"

fun mantissa_ok :: "lit_mantissa \<Rightarrow> bool" where
  "mantissa_ok (Digits ip) = decimal_digits ip"
| "mantissa_ok (DigitsDot ip fp) = (decimal_digits ip \<and> list_all isDigit fp)"
| "mantissa_ok (DotDigits fp) = decimal_digits fp"

fun exponent_ok :: "lit_exponent \<Rightarrow> bool" where
  "exponent_ok NoExponent = True"
| "exponent_ok (Exponent c sg es) = ((c = CHR ''e'' \<or> c = CHR ''E'') \<and> decimal_digits es)"

fun literal_ok :: "str_literal \<Rightarrow> bool" where
  "literal_ok (InfinityLiteral sg) = True"
| "literal_ok (DecimalLiteral sg m ex) = (mantissa_ok m \<and> exponent_ok ex)"

text \<open>
  The mathematical value: the digits before the point, plus the digits after it scaled
  by their number, times ten to the exponent; and the Number value of the literal.
\<close>

fun mantissa_value :: "lit_mantissa \<Rightarrow> rat" where
  "mantissa_value (Digits ip) = of_int (digits_value ip)"
| "mantissa_value (DigitsDot ip fp) =
     of_int (digits_value ip) + of_int (digits_value fp) * 10 powi (- int (length fp))"
| "mantissa_value (DotDigits fp) = of_int (digits_value fp) * 10 powi (- int (length fp))"

fun exponent_value :: "lit_exponent \<Rightarrow> int" where
  "exponent_value NoExponent = 0"
| "exponent_value (Exponent c MinusSign es) = - digits_value es"
| "exponent_value (Exponent c sg es) = digits_value es"

fun apply_sign :: "lit_sign \<Rightarrow> number \<Rightarrow> number" where
  "apply_sign MinusSign v = neg v"
| "apply_sign sg v = v"

fun literal_value :: "str_literal \<Rightarrow> number" where
  "literal_value (InfinityLiteral sg) = apply_sign sg PInf"
| "literal_value (DecimalLiteral sg m ex) =
     apply_sign sg (number_value (mantissa_value m * 10 powi exponent_value ex))"

text \<open>
  A literal at the start of a string is the longest one when what follows cannot continue
  it: no digit follows; after a mantissa without exponent no complete exponent part
  follows; after digits alone no point follows (with a point the literal is the one with
  the point). Whatever else follows, letters included, ends the literal.
\<close>

definition starts_with_digit :: "string \<Rightarrow> bool" where
  "starts_with_digit s = (case s of [] \<Rightarrow> False | c # r \<Rightarrow> isDigit c)"

definition starts_exponent :: "string \<Rightarrow> bool" where
  "starts_exponent s =
     (case s of
        [] \<Rightarrow> False
      | c # r \<Rightarrow>
          (c = CHR ''e'' \<or> c = CHR ''E'') \<and>
          (case r of
             [] \<Rightarrow> False
           | d # r' \<Rightarrow> isDigit d \<or> ((d = CHR ''+'' \<or> d = CHR ''-'') \<and> starts_with_digit r')))"

fun literal_ends :: "str_literal \<Rightarrow> string \<Rightarrow> bool" where
  "literal_ends (InfinityLiteral sg) tail = True"
| "literal_ends (DecimalLiteral sg (Digits ip) NoExponent) tail =
     (\<not> starts_with_digit tail \<and> \<not> starts_exponent tail \<and> \<not> prefix ''.'' tail)"
| "literal_ends (DecimalLiteral sg m NoExponent) tail =
     (\<not> starts_with_digit tail \<and> \<not> starts_exponent tail)"
| "literal_ends (DecimalLiteral sg m (Exponent c sg' es)) tail = (\<not> starts_with_digit tail)"

text \<open>A cell has a parsable leading number when, after white space, it starts with a literal.\<close>

definition has_numeric_prefix :: "string \<Rightarrow> bool" where
  "has_numeric_prefix s \<longleftrightarrow>
     (\<exists>ws lit tail. list_all isWhiteSpace ws \<and> literal_ok lit \<and> s = ws @ literal_text lit @ tail)"

text \<open>The same, read off the first characters.\<close>

definition starts_number :: "string \<Rightarrow> bool" where
  "starts_number u \<longleftrightarrow>
     prefix ''Infinity'' u \<or> starts_with_digit u \<or>
     (case u of [] \<Rightarrow> False | c # r \<Rightarrow> c = CHR ''.'' \<and> starts_with_digit r)"

definition numeric_start :: "string \<Rightarrow> bool" where
  "numeric_start s =
     (case trimStart s of
        [] \<Rightarrow> False
      | c # r \<Rightarrow> if c = CHR ''-'' \<or> c = CHR ''+'' then starts_number r else starts_number (c # r))"

section \<open>Example inputs\<close>

definition row_a :: "string list" where
  "row_a = ['''', '''', ''B91214 - Compute - E4'', ''OCPU/Hour'', ''100'', '''', '''', '''', ''50.00'']"

definition row_b :: "string list" where
  "row_b = ['''', '''', ''B91214 - Other name'', ''GB/Month'', ''150'', '''', '''', '''', ''75.00'']"

definition item_a :: OCIConsumptionRow where
  "item_a = \<lparr>sku = ''B91214'', productName = ''Compute - E4'', usageAmount = Fin 100,
               unit = ''OCPU/Hour'', cost = Fin 50\<rparr>"

definition item_ab :: OCIConsumptionRow where
  "item_ab = \<lparr>sku = ''B91214'', productName = ''Compute - E4'', usageAmount = Fin 250,
                unit = ''OCPU/Hour'', cost = Fin 125\<rparr>"

definition state0 :: AppState where
  "state0 = \<lparr>consumptionData = [], isLoading = True, analysisStep = parsing\<rparr>"

definition state1 :: AppState where
  "state1 = \<lparr>consumptionData = [item_ab], isLoading = True, analysisStep = parsing\<rparr>"

definition row_header :: "string list" where
  "row_header = [''Subscription Plan Number'', '''', ''H100 - Header item'', ''Each'', ''1'', '''',
                 '''', '''', ''7'']"

definition item_header :: OCIConsumptionRow where
  "item_header = \<lparr>sku = ''H100'', productName = ''Header item'', usageAmount = Fin 1,
                    unit = ''Each'', cost = Fin 7\<rparr>"

definition row_x :: "string list" where
  "row_x = ['''', '''', ''X - Y'', ''U'', ''abc'', '''', '''', '''', ''not-a-number'']"

definition item_x :: OCIConsumptionRow where
  "item_x = \<lparr>sku = ''X'', productName = ''Y'', usageAmount = Fin 0, unit = ''U'', cost = Fin 0\<rparr>"

definition row_blank :: "string list" where
  "row_blank = ['''', '''', ''   '', ''U'', ''1'', '''', '''', '''', ''2'']"

definition item_blank :: OCIConsumptionRow where
  "item_blank = \<lparr>sku = [], productName = [], usageAmount = Fin 1, unit = ''U'', cost = Fin 2\<rparr>"

definition row_short :: "string list" where
  "row_short = ['''', '''', ''B91214 - Compute - E4'', ''OCPU/Hour'', ''100'']"

definition row_constructor :: "string list" where
  "row_constructor = ['''', '''', ''constructor - X'', ''U'', ''1'', '''', '''', '''', ''2'']"

definition rows_nan :: "string list list" where
  "rows_nan =
     [['''', '''', ''B'', ''U'', ''1'', '''', '''', '''', ''1''],
      ['''', '''', ''A'', ''U'', ''1'', '''', '''', '''', ''Infinity''],
      ['''', '''', ''A'', ''U'', ''1'', '''', '''', '''', ''-Infinity''],
      ['''', '''', ''C'', ''U'', ''1'', '''', '''', '''', ''2'']]"

definition rows_sorted :: "string list list" where
  "rows_sorted =
     [['''', '''', ''B'', ''U'', ''1'', '''', '''', '''', ''1''],
      ['''', '''', ''A'', ''U'', ''1'', '''', '''', '''', ''3''],
      ['''', '''', ''C'', ''U'', ''1'', '''', '''', '''', ''2'']]"

definition row_12abc :: "string list" where
  "row_12abc = ['''', '''', ''Q - R'', ''U'', ''12abc'', '''', '''', '''', ''7 units'']"

definition item_12abc :: OCIConsumptionRow where
  "item_12abc = \<lparr>sku = ''Q'', productName = ''R'', usageAmount = Fin 12, unit = ''U'', cost = Fin 7\<rparr>"

definition row_toString :: "string list" where
  "row_toString = ['''', '''', ''toString - T'', ''U'', ''abc'', '''', '''', '''', ''xyz'']"

definition row_ws :: "string list" where
  "row_ws = ['''', '''', ''   '', ''U1'', ''1'', '''', '''', '''', ''2'']"

definition row_dash :: "string list" where
  "row_dash = ['''', '''', '' - foo'', ''U2'', ''10'', '''', '''', '''', ''20'']"

definition item_ws :: OCIConsumptionRow where
  "item_ws = \<lparr>sku = [], productName = [], usageAmount = Fin 11, unit = ''U1'', cost = Fin 22\<rparr>"

definition lit_fraction :: str_literal where
  "lit_fraction =
     DecimalLiteral MinusSign (DigitsDot ''12'' ''5'') (Exponent (CHR ''e'') PlusSign ''1'')"

definition lit_digits :: str_literal where
  "lit_digits = DecimalLiteral NoSign (Digits ''12'') NoExponent"

definition row_prefixes :: "string list" where
  "row_prefixes = ['''', '''', ''Q - R'', ''U'', '' -12.5e+1each'', '''', '''', '''', ''12each'']"

section \<open>The callback, row by row\<close>

lemma forEach_body_cases:
  "forEach_body m row =
     (if \<not> passes_guards row then m
      else if truthy_at m (row_id row) then add_to_item m (row_id row) (row_usage row) (row_cost row)
      else m @ [(row_id row, \<lparr>sku = row_id row, productName = productName_of (row ! 2),
                   usageAmount = row_usage row, unit = row ! 3, cost = row_cost row\<rparr>)])"
  by (simp add: forEach_body_def passes_guards_def row_id_def row_usage_def row_cost_def Let_def)

lemma forEach_body_skip: "\<not> passes_guards row \<Longrightarrow> forEach_body m row = m"
  by (simp add: forEach_body_cases)

lemma forEach_body_add:
  "passes_guards row \<Longrightarrow> truthy_at m (row_id row) \<Longrightarrow>
     forEach_body m row = add_to_item m (row_id row) (row_usage row) (row_cost row)"
  by (simp add: forEach_body_cases)

lemma forEach_body_new:
  "passes_guards row \<Longrightarrow> \<not> truthy_at m (row_id row) \<Longrightarrow>
     forEach_body m row =
       m @ [(row_id row, \<lparr>sku = row_id row, productName = productName_of (row ! 2),
                   usageAmount = row_usage row, unit = row ! 3, cost = row_cost row\<rparr>)]"
  by (simp add: forEach_body_cases)

lemma keys_add_to_item: "map fst (add_to_item m k u c) = map fst m"
  by (induction m) (auto simp: add_to_item_def)

lemma add_to_item_absent: "k \<notin> fst ` set m \<Longrightarrow> add_to_item m k u c = m"
  by (induction m) (auto simp: add_to_item_def)

lemma add_to_item_Nil: "add_to_item [] key u c = []"
  by (simp add: add_to_item_def)

lemma add_to_item_Cons:
  "add_to_item ((a, b) # m) key u c =
     (if a = key then (a, b\<lparr>usageAmount := add (usageAmount b) u, cost := add (cost b) c\<rparr>)
      else (a, b)) # add_to_item m key u c"
  by (simp add: add_to_item_def)

lemma in_add_to_item:
  "(k, item') \<in> set (add_to_item m key u c) \<longleftrightarrow>
     (\<exists>item. (k, item) \<in> set m \<and>
        item' = (if k = key then item\<lparr>usageAmount := add (usageAmount item) u,
                                        cost := add (cost item) c\<rparr> else item))"
proof (induction m)
  case Nil
  then show ?case by (simp add: add_to_item_Nil)
next
  case (Cons p m)
  obtain a b where p: "p = (a, b)" by (cases p)
  show ?case
    unfolding p add_to_item_Cons set_simps insert_iff Cons.IH by (cases "a = key") auto
qed

lemma truthy_at_iff:
  "truthy_at m k \<longleftrightarrow> k \<in> fst ` set m \<or> k \<in> set Object_prototype_keys"
  by (auto simp: truthy_at_def map_of_eq_None_iff split: option.splits dest: map_of_SomeD)
   (metis domIff dom_map_of_conv_image_fst option.distinct(1) image_eqI fst_conv)

lemma keys_forEach_body:
  "fst ` set (forEach_body m row) =
     fst ` set m \<union> (if passes_guards row \<and> row_id row \<notin> set Object_prototype_keys
                     then {row_id row} else {})"
proof -
  have "fst ` set (add_to_item m k u c) = fst ` set m" for k u c
    using keys_add_to_item [of m k u c] by (metis set_map)
  then show ?thesis
    by (auto simp: forEach_body_cases truthy_at_iff)
qed

lemma keys_foldl:
  "fst ` set (foldl forEach_body [] rows) =
     {row_id row | row. row \<in> set rows \<and> passes_guards row \<and> row_id row \<notin> set Object_prototype_keys}"
proof (induction rows rule: rev_induct)
  case Nil
  then show ?case by simp
next
  case (snoc row rows)
  show ?case
    unfolding foldl_append foldl.simps keys_forEach_body snoc.IH by auto
qed

lemma distinct_forEach_body:
  "distinct (map fst m) \<Longrightarrow> distinct (map fst (forEach_body m row))"
  by (auto simp: forEach_body_cases keys_add_to_item truthy_at_iff)

lemma distinct_foldl: "distinct (map fst (foldl forEach_body [] rows))"
  by (induction rows rule: rev_induct) (auto intro: distinct_forEach_body)

section \<open>What the rows of one id add up to\<close>

lemma rows_with_snoc:
  "rows_with k (rows @ [row]) =
     (if passes_guards row \<and> row_id row = k then rows_with k rows @ [row] else rows_with k rows)"
  by (simp add: rows_with_def)

lemma rows_with_empty_iff:
  "rows_with k rows = [] \<longleftrightarrow> (\<forall>row \<in> set rows. \<not> (passes_guards row \<and> row_id row = k))"
  by (auto simp: rows_with_def filter_empty_conv)

text \<open>The item that the rows carrying one id add up to.\<close>

lemma item_foldl:
  "(k, item) \<in> set (foldl forEach_body [] rows) \<Longrightarrow>
     rows_with k rows \<noteq> [] \<and>
     sku item = k \<and>
     productName item = productName_of (hd (rows_with k rows) ! 2) \<and>
     unit item = hd (rows_with k rows) ! 3 \<and>
     usageAmount item = foldl add (row_usage (hd (rows_with k rows))) (map row_usage (tl (rows_with k rows))) \<and>
     cost item = foldl add (row_cost (hd (rows_with k rows))) (map row_cost (tl (rows_with k rows)))"
proof (induction rows arbitrary: item rule: rev_induct)
  case Nil
  then show ?case by simp
next
  case (snoc row rows)
  let ?m = "foldl forEach_body [] rows"
  have mem: "(k, item) \<in> set (forEach_body ?m row)"
    using snoc.prems by simp
  show ?case
  proof (cases "passes_guards row")
    case False
    then show ?thesis
      using mem snoc.IH [of item] by (simp add: forEach_body_skip rows_with_snoc)
  next
    case True
    show ?thesis
    proof (cases "truthy_at ?m (row_id row)")
      case truthy: True
      then have "(k, item) \<in> set (add_to_item ?m (row_id row) (row_usage row) (row_cost row))"
        using mem True by (simp add: forEach_body_add)
      then obtain old where old: "(k, old) \<in> set ?m"
        and item: "item = (if k = row_id row
                     then old\<lparr>usageAmount := add (usageAmount old) (row_usage row),
                              cost := add (cost old) (row_cost row)\<rparr> else old)"
        unfolding in_add_to_item by blast
      from snoc.IH [OF old] show ?thesis
        using True by (cases "k = row_id row") (auto simp: rows_with_snoc item)
    next
      case falsy: False
      then have absent: "row_id row \<notin> fst ` set ?m" and np: "row_id row \<notin> set Object_prototype_keys"
        by (simp_all add: truthy_at_iff)
      have new: "rows_with (row_id row) rows = []"
        using absent np unfolding keys_foldl rows_with_empty_iff by auto
      have "(k, item) \<in> set ?m \<or>
            (k, item) = (row_id row, \<lparr>sku = row_id row, productName = productName_of (row ! 2),
                   usageAmount = row_usage row, unit = row ! 3, cost = row_cost row\<rparr>)"
        using mem True falsy by (auto simp: forEach_body_new)
      then show ?thesis
      proof
        assume old: "(k, item) \<in> set ?m"
        then have "k \<noteq> row_id row" using absent by force
        with snoc.IH [OF old] show ?thesis by (simp add: rows_with_snoc)
      next
        assume "(k, item) = (row_id row, \<lparr>sku = row_id row, productName = productName_of (row ! 2),
                   usageAmount = row_usage row, unit = row ! 3, cost = row_cost row\<rparr>)"
        then show ?thesis using True new by (simp add: rows_with_snoc)
      qed
    qed
  qed
qed

lemma set_insert_item: "set (insert_item x ys) = insert x (set ys)"
  by (induction ys) auto

lemma set_array_sort: "set (array_sort xs) = set xs"
  by (induction xs) (simp_all add: array_sort_def set_insert_item)

lemma length_insert_item: "length (insert_item x ys) = Suc (length ys)"
  by (induction ys) auto

lemma length_array_sort: "length (array_sort xs) = length xs"
  by (induction xs) (simp_all add: array_sort_def length_insert_item)

lemma set_Object_values: "set (Object_values m) = snd ` set m"
proof -
  let ?P = "\<lambda>(key, item). array_index key \<noteq> None"
  have eq: "(\<lambda>(key, item). array_index key = None) = (\<lambda>p. \<not> ?P p)"
    by (simp add: fun_eq_iff split_def)
  have "set (Object_values m) = snd ` (set (filter ?P m) \<union> set (filter (\<lambda>p. \<not> ?P p) m))"
    unfolding Object_values_def eq by (simp add: image_Un del: not_None_eq)
  also have "set (filter ?P m) \<union> set (filter (\<lambda>p. \<not> ?P p) m) = set m"
    by auto
  finally show ?thesis .
qed

lemma length_Object_values: "length (Object_values m) = length m"
proof -
  let ?P = "\<lambda>(key, item). array_index key \<noteq> None"
  have eq: "(\<lambda>(key, item). array_index key = None) = (\<lambda>p. \<not> ?P p)"
    by (simp add: fun_eq_iff split_def)
  show ?thesis
    unfolding Object_values_def eq
    using sum_length_filter_compl [of ?P m] by (simp del: not_None_eq)
qed

lemma set_aggregatedData: "set (aggregatedData rows) = snd ` set (foldl forEach_body [] rows)"
  by (simp add: aggregatedData_def set_array_sort set_Object_values)

lemma sku_foldl: "(k, item) \<in> set (foldl forEach_body [] rows) \<Longrightarrow> sku item = k"
  using item_foldl by blast

lemma in_aggregatedData:
  "item \<in> set (aggregatedData rows) \<longleftrightarrow> (sku item, item) \<in> set (foldl forEach_body [] rows)"
  unfolding set_aggregatedData using sku_foldl by force

lemma skus_aggregatedData:
  "sku ` set (aggregatedData rows) =
     {row_id row | row. row \<in> set rows \<and> passes_guards row \<and> row_id row \<notin> set Object_prototype_keys}"
proof -
  have "sku ` set (aggregatedData rows) = fst ` set (foldl forEach_body [] rows)"
    unfolding set_aggregatedData using sku_foldl by force
  then show ?thesis by (simp add: keys_foldl)
qed

lemma distinct_map_insert_item:
  "distinct (map f (insert_item x ys)) \<longleftrightarrow> f x \<notin> f ` set ys \<and> distinct (map f ys)"
  by (induction ys) (auto simp: set_insert_item)

lemma distinct_map_array_sort: "distinct (map f (array_sort xs)) = distinct (map f xs)"
proof (induction xs)
  case Nil
  then show ?case by (simp add: array_sort_def)
next
  case (Cons x xs)
  have "array_sort (x # xs) = insert_item x (array_sort xs)" by (simp add: array_sort_def)
  then show ?case using Cons by (simp add: distinct_map_insert_item set_array_sort)
qed

lemma distinct_keys_Object_values:
  assumes "distinct (map fst m)"
  shows "distinct (map fst (sort_key (\<lambda>(key, item). the (array_index key))
                (filter (\<lambda>(key, item). array_index key \<noteq> None) m)
            @ filter (\<lambda>(key, item). array_index key = None) m))"
proof -
  let ?A = "sort_key (\<lambda>(key, item). the (array_index key))
                (filter (\<lambda>(key, item). array_index key \<noteq> None) m)"
  let ?B = "filter (\<lambda>(key, item). array_index key = None) m"
  have dm: "distinct m" and inj: "inj_on fst (set m)"
    using assms by (simp_all add: distinct_map)
  have "distinct (map fst ?A)"
    unfolding distinct_map using dm inj by (auto intro: inj_on_subset)
  moreover have "distinct (map fst ?B)"
    unfolding distinct_map using dm inj by (auto intro: inj_on_subset)
  moreover have "fst ` set ?A \<inter> fst ` set ?B = {}"
    by auto
  ultimately show ?thesis by simp
qed

lemma distinct_skus_aggregatedData: "distinct (map sku (aggregatedData rows))"
proof -
  let ?m = "foldl forEach_body [] rows"
  let ?L = "sort_key (\<lambda>(key, item). the (array_index key))
                (filter (\<lambda>(key, item). array_index key \<noteq> None) ?m)
            @ filter (\<lambda>(key, item). array_index key = None) ?m"
  have ov: "Object_values ?m = map snd ?L" by (simp add: Object_values_def)
  have eq: "map sku (map snd ?L) = map fst ?L"
    using sku_foldl [of _ _ rows] by (auto simp: comp_def)
  have "distinct (map fst ?L)"
    by (rule distinct_keys_Object_values [OF distinct_foldl])
  then have "distinct (map sku (map snd ?L))" by (simp only: eq)
  then have "distinct (map sku (Object_values ?m))" by (simp only: ov)
  then show ?thesis
    by (simp add: aggregatedData_def distinct_map_array_sort)
qed

section \<open>Rounding keeps the sign of a difference\<close>

lemma on_grid_iff: "on_grid x \<longleftrightarrow> (\<exists>k::int. x = of_int k * 2 powi (- 1074))"
proof -
  have inv: "(2::rat) powi 1074 * 2 powi (- 1074) = 1"
    using power_int_add [of "2::rat" 1074 "- 1074"] by (simp del: power_int_numeral power_int_numeral_neg_numeral)
  show ?thesis
  proof
    assume "on_grid x"
    then have "of_int \<lfloor>x * 2 powi 1074\<rfloor> = x * 2 powi 1074" by (simp only: on_grid_def)
    then have "of_int \<lfloor>x * 2 powi 1074\<rfloor> * 2 powi (- 1074) = x * (2 powi 1074 * 2 powi (- 1074))"
      by (simp only: mult.assoc)
    then have "x = of_int \<lfloor>x * 2 powi 1074\<rfloor> * 2 powi (- 1074)"
      by (simp only: inv mult_1_right)
    then show "\<exists>k::int. x = of_int k * 2 powi (- 1074)" by blast
  next
    assume "\<exists>k::int. x = of_int k * 2 powi (- 1074)"
    then obtain k :: int where k: "x = of_int k * 2 powi (- 1074)" by blast
    have "x * 2 powi 1074 = of_int k * (2 powi 1074 * 2 powi (- 1074))"
      unfolding k by (simp only: mult.assoc mult.commute [of "2 powi (- 1074)"])
    then have "x * 2 powi 1074 = of_int k" by (simp only: inv mult_1_right)
    then show "on_grid x" by (simp only: on_grid_def floor_of_int)
  qed
qed

lemma ilog2_lower:
  assumes "0 < x"
  shows "2 powi (ilog2 x) \<le> x"
proof (cases "1 \<le> x")
  case True
  let ?n = "\<lfloor>x\<rfloor>"
  have n: "0 < ?n" using True by simp
  then have b: "1 \<le> bitlen ?n" using bitlen_eq_zero_iff [of ?n] bitlen_nonneg [of ?n] by linarith
  have "(2::int) ^ nat (bitlen ?n - 1) \<le> ?n" using bitlen_bounds [OF n] by simp
  then have "of_int ((2::int) ^ nat (bitlen ?n - 1)) \<le> (of_int ?n :: rat)"
    by (simp only: of_int_le_iff)
  also have "\<dots> \<le> x" by simp
  finally have "(2::rat) ^ nat (bitlen ?n - 1) \<le> x" by simp
  moreover have "ilog2 x = bitlen ?n - 1" using True by (simp add: ilog2_def)
  ultimately show ?thesis using b by (simp add: power_int_def)
next
  case False
  let ?c = "\<lceil>1 / x\<rceil>"
  let ?k = "bitlen (?c - 1)"
  have "1 < 1 / x" using False assms by simp
  then have c: "0 < ?c - 1" by (simp add: less_ceiling_iff)
  have "?c - 1 < 2 ^ nat ?k" using bitlen_bounds [OF c] by simp
  then have ck: "?c \<le> 2 ^ nat ?k" by simp
  have "1 / x \<le> of_int ?c" by (rule le_of_int_ceiling)
  also have "(of_int ?c :: rat) \<le> of_int (2 ^ nat ?k)" using ck by (simp only: of_int_le_iff)
  also have "\<dots> = 2 ^ nat ?k" by simp
  finally have "1 / x \<le> 2 ^ nat ?k" .
  then have "1 \<le> 2 ^ nat ?k * x" using assms by (simp add: field_simps)
  then have "1 / 2 ^ nat ?k \<le> x" by (simp add: field_simps)
  moreover have "ilog2 x = - ?k" using False by (simp add: ilog2_def)
  moreover have "0 \<le> ?k" by (rule bitlen_nonneg)
  ultimately show ?thesis
    by (cases "?k = 0") (simp_all add: power_int_def power_inverse [symmetric] inverse_eq_divide power_one_over)
qed

lemma round_even_ge_one: "1 \<le> y \<Longrightarrow> 1 \<le> round_even y"
proof -
  assume "1 \<le> y"
  then have "1 \<le> \<lfloor>y\<rfloor>" by simp
  then show ?thesis by (simp add: round_even_def Let_def)
qed

lemma two_powi_g_le:
  assumes "0 < x" and "2 powi (- 1074) \<le> x"
  shows "2 powi (max (ilog2 x - 52) (- 1074)) \<le> x"
proof (cases "ilog2 x - 52 \<le> - 1074")
  case True
  then show ?thesis using assms(2) by (simp add: max_def)
next
  case False
  have "(2::rat) powi (ilog2 x - 52) \<le> 2 powi (ilog2 x)"
    by (rule power_int_increasing) simp_all
  also have "\<dots> \<le> x" by (rule ilog2_lower [OF assms(1)])
  finally show ?thesis using False by (simp add: max_def)
qed

lemma number_value_pos_sign:
  assumes "0 < x" and "2 powi (- 1074) \<le> x"
  shows "number_value_pos x = PInf \<or> (\<exists>y. 0 < y \<and> number_value_pos x = Fin y)"
proof -
  let ?g = "max (ilog2 x - 52) (- 1074)"
  have pos: "(0::rat) < 2 powi ?g" by simp
  have "2 powi ?g \<le> x" by (rule two_powi_g_le [OF assms])
  then have "1 \<le> x / 2 powi ?g" using pos by (simp add: field_simps)
  then have "1 \<le> round_even (x / 2 powi ?g)" by (rule round_even_ge_one)
  then have "(0::rat) < of_int (round_even (x / 2 powi ?g)) * 2 powi ?g"
    using pos by simp
  then show ?thesis
    unfolding number_value_pos_def Let_def by auto
qed

lemma on_grid_diff:
  assumes "on_grid a" and "on_grid b" and "a < b"
  shows "2 powi (- 1074) \<le> b - a"
proof -
  obtain ka kb :: int where a: "a = of_int ka * 2 powi (- 1074)" and b: "b = of_int kb * 2 powi (- 1074)"
    using assms(1,2) unfolding on_grid_iff by blast
  have pos: "(0::rat) < 2 powi (- 1074)" by (rule zero_less_power_int) simp
  have "ka < kb"
  proof (rule ccontr)
    assume "\<not> ka < kb"
    then have "(of_int kb :: rat) \<le> of_int ka" by simp
    then have "b \<le> a" unfolding a b using pos by (intro mult_right_mono) simp_all
    with assms(3) show False by simp
  qed
  then have "1 \<le> kb - ka" by simp
  then have "(1::rat) \<le> of_int (kb - ka)" by (simp only: of_int_le_iff [symmetric] of_int_1)
  then have "1 * 2 powi (- 1074) \<le> (of_int (kb - ka) :: rat) * 2 powi (- 1074)"
    using pos by (intro mult_right_mono) simp_all
  then show ?thesis unfolding a b by (simp only: of_int_diff left_diff_distrib mult_1)
qed

lemma number_value_sign:
  assumes "on_grid a" and "on_grid b"
  shows "a < b \<Longrightarrow> number_value (b - a) = PInf \<or> (\<exists>y. 0 < y \<and> number_value (b - a) = Fin y)"
    and "a = b \<Longrightarrow> number_value (b - a) = Fin 0"
    and "b < a \<Longrightarrow> number_value (b - a) = NInf \<or> (\<exists>y. y < 0 \<and> number_value (b - a) = Fin y)"
proof -
  show "number_value (b - a) = Fin 0" if "a = b"
    using that by (simp add: number_value_def)
  show "number_value (b - a) = PInf \<or> (\<exists>y. 0 < y \<and> number_value (b - a) = Fin y)" if "a < b"
    using number_value_pos_sign [of "b - a"] on_grid_diff [OF assms that] that
    by (simp add: number_value_def)
  show "number_value (b - a) = NInf \<or> (\<exists>y. y < 0 \<and> number_value (b - a) = Fin y)" if "b < a"
  proof -
    have "number_value_pos (a - b) = PInf \<or> (\<exists>y. 0 < y \<and> number_value_pos (a - b) = Fin y)"
      using number_value_pos_sign [of "a - b"] on_grid_diff [OF assms(2,1) that] that by simp
    then show ?thesis using that by (auto simp: number_value_def)
  qed
qed

section \<open>The comparator and the sort\<close>

lemma on_grid_0: "on_grid 0"
  unfolding on_grid_iff by (rule exI [of _ 0]) simp

lemma on_grid_uminus: "on_grid x \<Longrightarrow> on_grid (- x)"
  unfolding on_grid_iff
proof -
  assume "\<exists>k::int. x = of_int k * 2 powi (- 1074)"
  then obtain k :: int where "x = of_int k * 2 powi (- 1074)" by blast
  then have "- x = of_int (- k) * 2 powi (- 1074)" by simp
  then show "\<exists>k::int. - x = of_int k * 2 powi (- 1074)" by blast
qed

lemma on_grid_scaled:
  assumes "- 1074 \<le> g"
  shows "on_grid (of_int m * 2 powi g)"
proof -
  have "(2::rat) powi g = 2 powi (g + 1074) * 2 powi (- 1074)"
    using power_int_add [of "2::rat" "g + 1074" "- 1074"] by simp
  also have "(2::rat) powi (g + 1074) = of_int (2 ^ nat (g + 1074))"
    using assms by (simp add: power_int_def)
  finally have "of_int m * (2::rat) powi g = of_int (m * 2 ^ nat (g + 1074)) * 2 powi (- 1074)"
    by simp
  then show ?thesis unfolding on_grid_iff by blast
qed

lemma representable_neg: "representable n \<Longrightarrow> representable (neg n)"
  by (cases n) (simp_all add: representable_def on_grid_uminus)

lemma representable_number_value_pos: "representable (number_value_pos x)"
  unfolding number_value_pos_def Let_def
  by (simp add: representable_def on_grid_scaled)

lemma representable_number_value: "representable (number_value x)"
  unfolding number_value_def
  by (simp add: representable_neg representable_number_value_pos)
     (simp add: representable_def on_grid_0)

lemma representable_add: "representable (add a b)"
  by (cases a; cases b) (simp_all add: representable_number_value, simp_all add: representable_def)

lemma representable_unsigned_literal:
  "unsigned_literal u = Some v \<Longrightarrow> representable v"
  unfolding unsigned_literal_def Let_def
  by (auto simp: representable_number_value split: if_splits) (simp add: representable_def)

lemma representable_special: "representable NaN" "representable PInf" "representable NInf"
  by (simp_all add: representable_def)

lemma representable_parseFloat: "representable (parseFloat s)"
  unfolding parseFloat_def
  by (auto split: list.splits option.splits
        intro!: representable_neg dest: representable_unsigned_literal
        simp: representable_special)

lemma representable_or_zero: "representable n \<Longrightarrow> representable (or_zero n)"
  by (simp add: or_zero_def) (simp add: representable_def on_grid_0)

lemma representable_row_cost: "representable (row_cost row)"
  by (simp add: row_cost_def representable_or_zero representable_parseFloat)

lemma representable_cost_foldl:
  "(k, item) \<in> set (foldl forEach_body [] rows) \<Longrightarrow> representable (cost item)"
  using item_foldl [of k item rows]
  by (cases "tl (rows_with k rows)" rule: rev_cases)
     (simp_all add: representable_row_cost representable_add)

text \<open>On representable costs other than \<open>NaN\<close> the comparator is the strict order.\<close>

lemma comes_after_iff:
  assumes "cost x \<noteq> NaN" "cost y \<noteq> NaN" "representable (cost x)" "representable (cost y)"
  shows "comes_after x y \<longleftrightarrow> \<not> number_ge (cost x) (cost y)"
proof (cases "cost x")
  case NaN
  with assms show ?thesis by simp
next
  case PInf
  with assms show ?thesis
    by (cases "cost y") (simp_all add: comes_after_def comparefn_def sub_def)
next
  case NInf
  with assms show ?thesis
    by (cases "cost y") (simp_all add: comes_after_def comparefn_def sub_def)
next
  case (Fin u)
  note x = this
  show ?thesis
  proof (cases "cost y")
    case (Fin v)
    have gu: "on_grid u" and gv: "on_grid v"
      using assms(3,4) x Fin by (simp_all add: representable_def)
    have sub: "comparefn x y = number_value (v - u)"
      by (simp add: comparefn_def sub_def x Fin)
    consider "u < v" | "u = v" | "v < u" by linarith
    then show ?thesis
    proof cases
      case 1
      with number_value_sign(1) [OF gu gv] show ?thesis
        by (auto simp: comes_after_def sub x Fin)
    next
      case 2
      with number_value_sign(2) [OF gu gv] show ?thesis
        by (auto simp: comes_after_def sub x Fin)
    next
      case 3
      with number_value_sign(3) [OF gu gv] show ?thesis
        by (auto simp: comes_after_def sub x Fin)
    qed
  qed (use assms x in \<open>simp_all add: comes_after_def comparefn_def sub_def\<close>)
qed

lemma number_ge_trans:
  "number_ge a b \<Longrightarrow> number_ge b c \<Longrightarrow> number_ge a c"
  by (cases a; cases b; cases c) simp_all

lemma number_ge_total: "a \<noteq> NaN \<Longrightarrow> b \<noteq> NaN \<Longrightarrow> number_ge a b \<or> number_ge b a"
  by (cases a; cases b) auto

lemma descending_insert_item:
  assumes "descending_by_cost ys"
    and "\<forall>z \<in> set (x # ys). cost z \<noteq> NaN \<and> representable (cost z)"
  shows "descending_by_cost (insert_item x ys)"
  using assms
proof (induction ys)
  case Nil
  then show ?case by (simp add: descending_by_cost_def)
next
  case (Cons y ys)
  have iff: "comes_after x y \<longleftrightarrow> \<not> number_ge (cost x) (cost y)"
    using Cons.prems(2) by (intro comes_after_iff) simp_all
  show ?case
  proof (cases "comes_after x y")
    case True
    then have "number_ge (cost y) (cost x)"
      using iff number_ge_total [of "cost x" "cost y"] Cons.prems(2) by auto
    moreover have "descending_by_cost (insert_item x ys)"
      using Cons by (simp add: descending_by_cost_def)
    ultimately show ?thesis
      using True Cons.prems(1) by (auto simp: descending_by_cost_def set_insert_item)
  next
    case False
    then have xy: "number_ge (cost x) (cost y)" using iff by simp
    have "number_ge (cost x) (cost z)" if "z \<in> set ys" for z
      using xy Cons.prems(1) that number_ge_trans by (auto simp: descending_by_cost_def)
    then show ?thesis
      using False xy Cons.prems(1) by (simp add: descending_by_cost_def)
  qed
qed

lemma descending_array_sort:
  "\<forall>z \<in> set xs. cost z \<noteq> NaN \<and> representable (cost z) \<Longrightarrow> descending_by_cost (array_sort xs)"
proof (induction xs)
  case Nil
  then show ?case by (simp add: array_sort_def descending_by_cost_def)
next
  case (Cons x xs)
  have "descending_by_cost (insert_item x (array_sort xs))"
    using Cons by (intro descending_insert_item) (simp_all add: set_array_sort)
  then show ?case by (simp add: array_sort_def)
qed

lemma representable_aggregatedData:
  "item \<in> set (aggregatedData rows) \<Longrightarrow> representable (cost item)"
  unfolding in_aggregatedData by (rule representable_cost_foldl)

section \<open>indexOf and substring\<close>

lemma indexOf_from_absent:
  "(\<forall>i \<le> length s. \<not> prefix pat (drop i s)) \<Longrightarrow> indexOf_from n s pat = - 1"
proof (induction s arbitrary: n)
  case Nil
  then show ?case by auto
next
  case (Cons c cs)
  have "\<not> prefix pat (c # cs)" using Cons.prems [rule_format, of 0] by simp
  moreover have "\<forall>i \<le> length cs. \<not> prefix pat (drop i cs)"
  proof (intro allI impI)
    fix i assume "i \<le> length cs"
    then show "\<not> prefix pat (drop i cs)" using Cons.prems [rule_format, of "Suc i"] by simp
  qed
  ultimately show ?case using Cons.IH by simp
qed

lemma indexOf_from_first:
  "prefix pat (drop k s) \<Longrightarrow> k \<le> length s \<Longrightarrow> (\<forall>i < k. \<not> prefix pat (drop i s)) \<Longrightarrow>
     indexOf_from n s pat = int (n + k)"
proof (induction s arbitrary: n k)
  case Nil
  then show ?case by simp
next
  case (Cons c cs)
  show ?case
  proof (cases k)
    case 0
    then show ?thesis using Cons.prems by simp
  next
    case (Suc j)
    have "\<not> prefix pat (c # cs)" using Cons.prems(3) [rule_format, of 0] Suc by simp
    moreover have "indexOf_from (Suc n) cs pat = int (Suc n + j)"
    proof (rule Cons.IH)
      show "prefix pat (drop j cs)" using Cons.prems(1) Suc by simp
      show "j \<le> length cs" using Cons.prems(2) Suc by simp
      show "\<forall>i < j. \<not> prefix pat (drop i cs)"
      proof (intro allI impI)
        fix i assume "i < j"
        then show "\<not> prefix pat (drop i cs)"
          using Cons.prems(3) [rule_format, of "Suc i"] Suc by simp
      qed
    qed
    ultimately show ?thesis using Suc by simp
  qed
qed

lemma substring_prefix_part: "substring (a @ rest) 0 (int (length a)) = a"
  by (simp add: substring_def Let_def)

lemma substring_from_suffix_part:
  "substring_from (a @ sep @ b) (int (length a) + int (length sep)) = b"
  by (simp add: substring_from_def substring_def Let_def)

section \<open>parseFloat against the grammar\<close>

lemma digits_value_snoc: "digits_value (ds @ [c]) = 10 * digits_value ds + digit_value c"
  by (simp add: digits_value_def)

lemma digits_value_append:
  "digits_value (ip @ fp) = digits_value ip * 10 ^ length fp + digits_value fp"
proof (induction fp rule: rev_induct)
  case Nil
  then show ?case by (simp add: digits_value_def)
next
  case (snoc c fp)
  have "digits_value (ip @ fp @ [c]) = 10 * digits_value (ip @ fp) + digit_value c"
    using digits_value_snoc [of "ip @ fp" c] by simp
  then show ?case by (simp add: snoc.IH digits_value_snoc algebra_simps)
qed

lemma takeWhile_digits_tail:
  "list_all isDigit ds \<Longrightarrow> \<not> starts_with_digit rest \<Longrightarrow>
     takeWhile isDigit (ds @ rest) = ds \<and> dropWhile isDigit (ds @ rest) = rest"
  by (induction ds) (cases rest; auto simp: starts_with_digit_def)+

lemma dropWhile_space_tail:
  "list_all isWhiteSpace ws \<Longrightarrow> rest = [] \<or> \<not> isWhiteSpace (hd rest) \<Longrightarrow>
     dropWhile isWhiteSpace (ws @ rest) = rest"
  by (induction ws) (cases rest; auto)+

lemma isDigit_chars:
  "isDigit c \<Longrightarrow> \<not> isWhiteSpace c \<and> c \<noteq> CHR ''-'' \<and> c \<noteq> CHR ''+'' \<and> c \<noteq> CHR ''I''
     \<and> c \<noteq> CHR ''.'' \<and> c \<noteq> CHR ''e'' \<and> c \<noteq> CHR ''E''"
  by (auto simp: isDigit_def isWhiteSpace_def)

lemma exponent_part_none: "\<not> starts_exponent tail \<Longrightarrow> exponent_part tail = 0"
proof (cases tail)
  case Nil
  then show ?thesis by (simp add: exponent_part_def)
next
  case (Cons c r)
  assume ns: "\<not> starts_exponent tail"
  show ?thesis
  proof (cases "c = CHR ''e'' \<or> c = CHR ''E''")
    case False
    then show ?thesis by (simp add: exponent_part_def Cons)
  next
    case True
    show ?thesis
    proof (cases r)
      case Nil
      then show ?thesis using True by (simp add: exponent_part_def Cons)
    next
      case (Cons d r')
      have nd: "\<not> isDigit d" and sg: "d = CHR ''+'' \<or> d = CHR ''-'' \<Longrightarrow> \<not> starts_with_digit r'"
        using ns True by (auto simp: starts_exponent_def \<open>tail = c # r\<close> Cons)
      have e1: "takeWhile isDigit r' = []" if "d = CHR ''+'' \<or> d = CHR ''-''"
        using sg [OF that] by (cases r') (simp_all add: starts_with_digit_def)
      have e2: "takeWhile isDigit r = []" using nd by (simp add: Cons)
      show ?thesis
        using True e1 e2 by (auto simp: exponent_part_def \<open>tail = c # r\<close> Cons digits_value_def)
    qed
  qed
qed

lemma exponent_part_text:
  assumes "exponent_ok (Exponent c sg es)" and "\<not> starts_with_digit tail"
  shows "exponent_part (exponent_text (Exponent c sg es) @ tail) = exponent_value (Exponent c sg es)"
proof -
  have c: "c = CHR ''e'' \<or> c = CHR ''E''" and es: "es \<noteq> []" "list_all isDigit es"
    using assms(1) by (simp_all add: decimal_digits_def)
  have tw: "takeWhile isDigit (es @ tail) = es"
    using takeWhile_digits_tail [OF es(2) assms(2)] by simp
  obtain d es' where d: "es = d # es'" using es(1) by (cases es) auto
  have dd: "isDigit d" using es(2) d by simp
  note sp = isDigit_chars [OF dd]
  show ?thesis
  proof (cases sg)
    case NoSign
    have "exponent_part (c # es @ tail) = digits_value (takeWhile isDigit (es @ tail))"
      using c sp by (auto simp: exponent_part_def d)
    then show ?thesis by (simp add: NoSign tw)
  next
    case PlusSign
    have "exponent_part (c # CHR ''+'' # es @ tail) = digits_value (takeWhile isDigit (es @ tail))"
      using c by (auto simp: exponent_part_def)
    then show ?thesis by (simp add: PlusSign tw)
  next
    case MinusSign
    have "exponent_part (c # CHR ''-'' # es @ tail) = - digits_value (takeWhile isDigit (es @ tail))"
      using c by (auto simp: exponent_part_def)
    then show ?thesis by (simp add: MinusSign tw)
  qed
qed

lemma scale_digits:
  "of_int (a * 10 ^ n + b) * (10::rat) powi (e - int n) =
     (of_int a + of_int b * 10 powi (- int n)) * 10 powi e"
proof -
  have split: "(10::rat) powi (e - int n) = 10 powi e * 10 powi (- int n)"
    using power_int_add [of "10::rat" e "- int n"] by simp
  have unit: "(10::rat) ^ n * 10 powi (- int n) = 1"
    by (simp add: power_int_minus)
  have "of_int (a * 10 ^ n + b) * (10::rat) powi (e - int n) =
      (of_int a * (10 ^ n * 10 powi (- int n)) + of_int b * 10 powi (- int n)) * 10 powi e"
    unfolding split by (simp add: algebra_simps)
  then show ?thesis unfolding unit by simp
qed

text \<open>What follows the mantissa: the exponent, if any, and the tail.\<close>

lemma after_mantissa:
  assumes "exponent_ok ex" and "literal_ends (DecimalLiteral sg m ex) tail"
  shows "\<not> starts_with_digit (exponent_text ex @ tail)"
    and "exponent_part (exponent_text ex @ tail) = exponent_value ex"
    and "m = Digits ip \<Longrightarrow> \<not> prefix ''.'' (exponent_text ex @ tail)"
proof -
  show "\<not> starts_with_digit (exponent_text ex @ tail)"
  proof (cases ex)
    case NoExponent
    then show ?thesis using assms(2) by (cases m) simp_all
  next
    case (Exponent c sg' es)
    then show ?thesis using assms(1) by (auto simp: starts_with_digit_def isDigit_def)
  qed
  show "exponent_part (exponent_text ex @ tail) = exponent_value ex"
  proof (cases ex)
    case NoExponent
    then have "\<not> starts_exponent tail" using assms(2) by (cases m) simp_all
    then show ?thesis using NoExponent by (simp add: exponent_part_none)
  next
    case (Exponent c sg' es)
    then have "\<not> starts_with_digit tail" using assms(2) by (cases m) simp_all
    then show ?thesis using exponent_part_text assms(1) unfolding Exponent by blast
  qed
  show "\<not> prefix ''.'' (exponent_text ex @ tail)" if "m = Digits ip"
  proof (cases ex)
    case NoExponent
    then show ?thesis using assms(2) that by simp
  next
    case (Exponent c sg' es)
    then show ?thesis using assms(1) by auto
  qed
qed

lemma unsigned_literal_decimal:
  assumes "mantissa_ok m" and "exponent_ok ex" and "literal_ends (DecimalLiteral sg m ex) tail"
  shows "unsigned_literal (mantissa_text m @ exponent_text ex @ tail) =
           Some (number_value (mantissa_value m * 10 powi exponent_value ex))"
proof -
  define rest where "rest = exponent_text ex @ tail"
  note am = after_mantissa [OF assms(2,3), folded rest_def]
  have nd: "\<not> starts_with_digit rest" by (rule am(1))
  have ex: "exponent_part rest = exponent_value ex" by (rule am(2))
  show ?thesis
  proof (cases m)
    case (Digits ip)
    define u where "u = ip @ rest"
    have ip: "ip \<noteq> []" "list_all isDigit ip" using assms(1) Digits by (simp_all add: decimal_digits_def)
    obtain d ip' where d: "ip = d # ip'" using ip(1) by (cases ip) auto
    have "isDigit d" using ip(2) d by simp
    note sp = isDigit_chars [OF this]
    have noinf: "\<not> prefix ''Infinity'' u" using sp by (auto simp: u_def d)
    have tw: "takeWhile isDigit u = ip" "dropWhile isDigit u = rest"
      using takeWhile_digits_tail [OF ip(2) nd] by (simp_all add: u_def)
    have nodot: "\<not> prefix ''.'' rest" using am(3) [OF Digits] .
    have c1: "(case rest of [] \<Rightarrow> [] | c # r \<Rightarrow> if c = CHR ''.'' then takeWhile isDigit r else []) = []"
      and c2: "(case rest of [] \<Rightarrow> [] | c # r \<Rightarrow> if c = CHR ''.'' then dropWhile isDigit r else rest) = rest"
      using nodot by (cases rest; auto)+
    have "unsigned_literal u = Some (number_value (of_int (digits_value ip) * 10 powi exponent_value ex))"
      unfolding unsigned_literal_def Let_def tw c1 c2 ex
      using noinf ip(1) by simp
    then show ?thesis by (simp add: Digits u_def rest_def)
  next
    case (DigitsDot ip fp)
    define u where "u = ip @ CHR ''.'' # fp @ rest"
    have ip: "ip \<noteq> []" "list_all isDigit ip" and fp: "list_all isDigit fp"
      using assms(1) DigitsDot by (simp_all add: decimal_digits_def)
    obtain d ip' where d: "ip = d # ip'" using ip(1) by (cases ip) auto
    have "isDigit d" using ip(2) d by simp
    note sp = isDigit_chars [OF this]
    have noinf: "\<not> prefix ''Infinity'' u" using sp by (auto simp: u_def d)
    have "\<not> starts_with_digit (CHR ''.'' # fp @ rest)"
      by (simp add: starts_with_digit_def isDigit_def)
    from takeWhile_digits_tail [OF ip(2) this]
    have tw: "takeWhile isDigit u = ip" "dropWhile isDigit u = CHR ''.'' # fp @ rest"
      by (simp_all add: u_def)
    have tf: "takeWhile isDigit (fp @ rest) = fp" "dropWhile isDigit (fp @ rest) = rest"
      using takeWhile_digits_tail [OF fp nd] by simp_all
    have "unsigned_literal u =
        Some (number_value (of_int (digits_value (ip @ fp)) * 10 powi (exponent_value ex - int (length fp))))"
      unfolding unsigned_literal_def Let_def tw
      using noinf ip(1) by (simp add: tf ex)
    also have "of_int (digits_value (ip @ fp)) * (10::rat) powi (exponent_value ex - int (length fp)) =
        mantissa_value m * 10 powi exponent_value ex"
      unfolding digits_value_append DigitsDot mantissa_value.simps by (rule scale_digits)
    finally show ?thesis by (simp add: DigitsDot u_def rest_def)
  next
    case (DotDigits fp)
    define u where "u = CHR ''.'' # fp @ rest"
    have fp: "fp \<noteq> []" "list_all isDigit fp"
      using assms(1) DotDigits by (simp_all add: decimal_digits_def)
    have noinf: "\<not> prefix ''Infinity'' u" by (simp add: u_def)
    have tw: "takeWhile isDigit u = []" "dropWhile isDigit u = CHR ''.'' # fp @ rest"
      by (simp_all add: u_def isDigit_def)
    have tf: "takeWhile isDigit (fp @ rest) = fp" "dropWhile isDigit (fp @ rest) = rest"
      using takeWhile_digits_tail [OF fp(2) nd] by simp_all
    have "unsigned_literal u =
        Some (number_value (of_int (digits_value ([] @ fp)) * 10 powi (exponent_value ex - int (length fp))))"
      unfolding unsigned_literal_def Let_def tw
      using noinf fp(1) by (simp add: tf ex)
    also have "of_int (digits_value ([] @ fp)) * (10::rat) powi (exponent_value ex - int (length fp)) =
        mantissa_value m * 10 powi exponent_value ex"
      unfolding digits_value_append DotDigits mantissa_value.simps
      using scale_digits [of 0 "length fp" "digits_value fp" "exponent_value ex"]
      by (simp add: digits_value_def)
    finally show ?thesis by (simp add: DotDigits u_def rest_def)
  qed
qed

lemma unsigned_literal_text:
  assumes "literal_ok lit" and "literal_ends lit tail"
  shows "unsigned_literal (drop (length (sign_text (case lit of InfinityLiteral sg \<Rightarrow> sg
            | DecimalLiteral sg m ex \<Rightarrow> sg))) (literal_text lit) @ tail) =
         Some (case lit of InfinityLiteral sg \<Rightarrow> PInf
               | DecimalLiteral sg m ex \<Rightarrow> number_value (mantissa_value m * 10 powi exponent_value ex))"
proof (cases lit)
  case (InfinityLiteral sg)
  then show ?thesis by (simp add: unsigned_literal_def)
next
  case (DecimalLiteral sg m ex)
  then show ?thesis
    using unsigned_literal_decimal [of m ex sg tail] assms by simp
qed

lemma mantissa_first:
  "mantissa_ok m \<Longrightarrow> \<exists>c r. mantissa_text m = c # r \<and> (isDigit c \<or> c = CHR ''.'')"
  by (cases m) (auto simp: decimal_digits_def neq_Nil_conv)

lemma body_first:
  assumes "literal_ok lit"
  shows "\<exists>c r. drop (length (sign_text (case lit of InfinityLiteral sg \<Rightarrow> sg
            | DecimalLiteral sg m ex \<Rightarrow> sg))) (literal_text lit) = c # r \<and>
          \<not> isWhiteSpace c \<and> c \<noteq> CHR ''-'' \<and> c \<noteq> CHR ''+''"
proof (cases lit)
  case (InfinityLiteral sg)
  then show ?thesis by (simp add: isWhiteSpace_def)
next
  case (DecimalLiteral sg m ex)
  then have "mantissa_ok m" using assms by simp
  from mantissa_first [OF this] obtain c r where
    m: "mantissa_text m = c # r" and c: "isDigit c \<or> c = CHR ''.''" by blast
  have "\<not> isWhiteSpace c \<and> c \<noteq> CHR ''-'' \<and> c \<noteq> CHR ''+''"
    using c isDigit_chars [of c] by (auto simp: isWhiteSpace_def)
  then show ?thesis by (simp add: DecimalLiteral m)
qed

lemma literal_ends_Nil: "literal_ends lit []"
proof (cases lit)
  case (InfinityLiteral sg)
  then show ?thesis by simp
next
  case (DecimalLiteral sg m ex)
  then show ?thesis
    by (cases m; cases ex) (simp_all add: starts_with_digit_def starts_exponent_def)
qed

lemma parseFloat_literal:
  assumes "literal_ok lit" and "list_all isWhiteSpace ws" and "literal_ends lit tail"
  shows "parseFloat (ws @ literal_text lit @ tail) = literal_value lit"
proof -
  define sg where "sg = (case lit of InfinityLiteral sg \<Rightarrow> sg | DecimalLiteral sg m ex \<Rightarrow> sg)"
  define body where "body = drop (length (sign_text sg)) (literal_text lit)"
  define v where "v = (case lit of InfinityLiteral sg \<Rightarrow> PInf
               | DecimalLiteral sg m ex \<Rightarrow> number_value (mantissa_value m * 10 powi exponent_value ex))"
  have split: "literal_text lit = sign_text sg @ body"
    unfolding body_def sg_def by (cases lit) simp_all
  have val: "literal_value lit = apply_sign sg v"
    unfolding v_def sg_def by (cases lit) simp_all
  have ul: "unsigned_literal (body @ tail) = Some v"
    using unsigned_literal_text [OF assms(1,3)] unfolding body_def sg_def v_def .
  obtain c r where body: "body = c # r"
    and c: "\<not> isWhiteSpace c" "c \<noteq> CHR ''-''" "c \<noteq> CHR ''+''"
    using body_first [OF assms(1)] unfolding body_def sg_def by blast
  have first: "sign_text sg @ body @ tail = [] \<or> \<not> isWhiteSpace (hd (sign_text sg @ body @ tail))"
    using c(1) by (cases sg) (simp_all add: body isWhiteSpace_def)
  have trimmed: "trimStart (ws @ literal_text lit @ tail) = sign_text sg @ body @ tail"
    unfolding trimStart_def split
    using dropWhile_space_tail [OF assms(2) first] by simp
  show ?thesis
  proof (cases sg)
    case NoSign
    have "parseFloat (ws @ literal_text lit @ tail) = v"
      unfolding parseFloat_def trimmed using ul c by (simp add: NoSign body)
    then show ?thesis by (simp add: val NoSign)
  next
    case PlusSign
    have "parseFloat (ws @ literal_text lit @ tail) = v"
      unfolding parseFloat_def trimmed using ul by (simp add: PlusSign)
    then show ?thesis by (simp add: val PlusSign)
  next
    case MinusSign
    have "parseFloat (ws @ literal_text lit @ tail) = neg v"
      unfolding parseFloat_def trimmed using ul by (simp add: MinusSign)
    then show ?thesis by (simp add: val MinusSign)
  qed
qed

lemma number_value_pos_not_NaN: "number_value_pos x \<noteq> NaN"
  by (simp add: number_value_pos_def Let_def)

lemma neg_NaN_iff: "neg v = NaN \<longleftrightarrow> v = NaN"
  by (cases v) simp_all

lemma number_value_not_NaN: "number_value x \<noteq> NaN"
  by (simp add: number_value_def number_value_pos_not_NaN neg_NaN_iff)

lemma literal_value_not_NaN: "literal_value lit \<noteq> NaN"
proof (cases lit)
  case (InfinityLiteral sg)
  then show ?thesis by (cases sg) simp_all
next
  case (DecimalLiteral sg m ex)
  then show ?thesis by (cases sg) (simp_all add: number_value_not_NaN neg_NaN_iff)
qed

lemma or_zero_literal_value: "or_zero (literal_value lit) = literal_value lit"
  using literal_value_not_NaN [of lit] by (auto simp: or_zero_def)

lemma takeWhile_digit_empty: "takeWhile isDigit u = [] \<longleftrightarrow> \<not> starts_with_digit u"
  by (cases u) (simp_all add: starts_with_digit_def)

lemma dropWhile_no_digit: "\<not> starts_with_digit (dropWhile isDigit u)"
  by (induction u) (simp_all add: starts_with_digit_def)

lemma unsigned_literal_None_iff: "unsigned_literal u = None \<longleftrightarrow> \<not> starts_number u"
proof (cases "prefix ''Infinity'' u")
  case True
  then show ?thesis by (simp add: unsigned_literal_def starts_number_def)
next
  case False
  show ?thesis
  proof (cases "starts_with_digit u")
    case True
    then have "takeWhile isDigit u \<noteq> []" by (simp add: takeWhile_digit_empty)
    then show ?thesis using True False by (simp add: unsigned_literal_def Let_def starts_number_def)
  next
    case nd: False
    then have tw: "takeWhile isDigit u = []" "dropWhile isDigit u = u"
      by (cases u; simp add: starts_with_digit_def)+
    show ?thesis
      unfolding unsigned_literal_def Let_def tw starts_number_def
      using False nd by (cases u) (auto simp: takeWhile_digit_empty)
  qed
qed

lemma unsigned_literal_not_NaN: "unsigned_literal u = Some v \<Longrightarrow> v \<noteq> NaN"
  by (auto simp: unsigned_literal_def Let_def number_value_not_NaN split: if_splits)

lemma parseFloat_NaN_iff: "parseFloat s = NaN \<longleftrightarrow> \<not> numeric_start s"
proof (cases "trimStart s")
  case Nil
  then show ?thesis by (simp add: parseFloat_def numeric_start_def)
next
  case (Cons c r)
  have some: "(case unsigned_literal u of None \<Rightarrow> NaN | Some v \<Rightarrow> v) = NaN \<longleftrightarrow> \<not> starts_number u"
    "(case unsigned_literal u of None \<Rightarrow> NaN | Some v \<Rightarrow> neg v) = NaN \<longleftrightarrow> \<not> starts_number u" for u
    using unsigned_literal_None_iff [of u] unsigned_literal_not_NaN [of u]
    by (auto split: option.splits simp: neg_NaN_iff)
  show ?thesis
    unfolding parseFloat_def numeric_start_def Cons by (simp add: some)
qed

lemma digits_takeWhile: "list_all isDigit (takeWhile isDigit u)"
  by (induction u) simp_all

lemma exponent_split:
  assumes "\<not> starts_with_digit r2"
  shows "\<exists>ex tail. exponent_ok ex \<and> r2 = exponent_text ex @ tail \<and>
           (case ex of NoExponent \<Rightarrow> \<not> starts_exponent tail \<and> tail = r2
            | Exponent c sg es \<Rightarrow> \<not> starts_with_digit tail)"
proof (cases "starts_exponent r2")
  case False
  then have "exponent_ok NoExponent \<and> r2 = exponent_text NoExponent @ r2 \<and>
           (case NoExponent of NoExponent \<Rightarrow> \<not> starts_exponent r2 \<and> r2 = r2
            | Exponent c sg es \<Rightarrow> \<not> starts_with_digit r2)"
    by simp
  then show ?thesis by blast
next
  case True
  then obtain c d r' where r2: "r2 = c # d # r'" and c: "c = CHR ''e'' \<or> c = CHR ''E''"
    and d: "isDigit d \<or> ((d = CHR ''+'' \<or> d = CHR ''-'') \<and> starts_with_digit r')"
    by (auto simp: starts_exponent_def split: list.splits)
  show ?thesis
  proof (cases "isDigit d")
    case True
    define es where "es = takeWhile isDigit (d # r')"
    define tail where "tail = dropWhile isDigit (d # r')"
    have "es \<noteq> []" using True by (simp add: es_def)
    moreover have "list_all isDigit es" unfolding es_def by (rule digits_takeWhile)
    moreover have "d # r' = es @ tail" by (simp add: es_def tail_def)
    moreover have "\<not> starts_with_digit tail" unfolding tail_def by (rule dropWhile_no_digit)
    ultimately have "exponent_ok (Exponent c NoSign es) \<and> r2 = exponent_text (Exponent c NoSign es) @ tail \<and>
           (case Exponent c NoSign es of NoExponent \<Rightarrow> \<not> starts_exponent tail \<and> tail = r2
            | Exponent c sg es \<Rightarrow> \<not> starts_with_digit tail)"
      using c by (simp add: r2 decimal_digits_def)
    then show ?thesis by blast
  next
    case False
    then have sd: "d = CHR ''+'' \<or> d = CHR ''-''" and r': "starts_with_digit r'" using d by auto
    define es where "es = takeWhile isDigit r'"
    define tail where "tail = dropWhile isDigit r'"
    define sg where "sg = (if d = CHR ''+'' then PlusSign else MinusSign)"
    have st: "sign_text sg = [d]" using sd by (auto simp: sg_def)
    have "es \<noteq> []" using r' by (simp add: es_def takeWhile_digit_empty)
    moreover have "list_all isDigit es" unfolding es_def by (rule digits_takeWhile)
    moreover have "r' = es @ tail" by (simp add: es_def tail_def)
    moreover have "\<not> starts_with_digit tail" unfolding tail_def by (rule dropWhile_no_digit)
    ultimately have "exponent_ok (Exponent c sg es) \<and> r2 = exponent_text (Exponent c sg es) @ tail \<and>
           (case Exponent c sg es of NoExponent \<Rightarrow> \<not> starts_exponent tail \<and> tail = r2
            | Exponent c sg es \<Rightarrow> \<not> starts_with_digit tail)"
      using c by (simp add: r2 decimal_digits_def st)
    then show ?thesis by blast
  qed
qed

lemma mantissa_split:
  assumes "starts_number u" and "\<not> prefix ''Infinity'' u"
  shows "\<exists>m r2. mantissa_ok m \<and> u = mantissa_text m @ r2 \<and> \<not> starts_with_digit r2 \<and>
           (case m of Digits ip \<Rightarrow> \<not> prefix ''.'' r2 | _ \<Rightarrow> True)"
proof -
  define ip where "ip = takeWhile isDigit u"
  define r1 where "r1 = dropWhile isDigit u"
  have u: "u = ip @ r1" by (simp add: ip_def r1_def)
  have ipd: "list_all isDigit ip" unfolding ip_def by (rule digits_takeWhile)
  have r1d: "\<not> starts_with_digit r1" unfolding r1_def by (rule dropWhile_no_digit)
  show ?thesis
  proof (cases "prefix ''.'' r1")
    case True
    then obtain r where r1: "r1 = CHR ''.'' # r" by (cases r1) auto
    define fp where "fp = takeWhile isDigit r"
    define r2 where "r2 = dropWhile isDigit r"
    have r: "r = fp @ r2" by (simp add: fp_def r2_def)
    have fpd: "list_all isDigit fp" unfolding fp_def by (rule digits_takeWhile)
    have r2d: "\<not> starts_with_digit r2" unfolding r2_def by (rule dropWhile_no_digit)
    show ?thesis
    proof (cases "ip = []")
      case False
      have "mantissa_ok (DigitsDot ip fp) \<and> u = mantissa_text (DigitsDot ip fp) @ r2 \<and>
          \<not> starts_with_digit r2 \<and> (case DigitsDot ip fp of Digits ip \<Rightarrow> \<not> prefix ''.'' r2 | _ \<Rightarrow> True)"
        using False ipd fpd r2d u r1 r by (simp add: decimal_digits_def)
      then show ?thesis by blast
    next
      case True
      then have u': "u = CHR ''.'' # r" using u r1 by simp
      then have "starts_with_digit r"
        using assms by (auto simp: starts_number_def starts_with_digit_def isDigit_def)
      then have "fp \<noteq> []" by (simp add: fp_def takeWhile_digit_empty)
      then have "mantissa_ok (DotDigits fp) \<and> u = mantissa_text (DotDigits fp) @ r2 \<and>
          \<not> starts_with_digit r2 \<and> (case DotDigits fp of Digits ip \<Rightarrow> \<not> prefix ''.'' r2 | _ \<Rightarrow> True)"
        using fpd r2d u' r by (simp add: decimal_digits_def)
      then show ?thesis by blast
    qed
  next
    case False
    have "ip \<noteq> []"
    proof
      assume "ip = []"
      then have tw: "takeWhile isDigit u = []" by (simp add: ip_def)
      then have nd: "\<not> starts_with_digit u" by (simp add: takeWhile_digit_empty)
      have ru: "r1 = u"
        using takeWhile_dropWhile_id [of isDigit u] unfolding tw r1_def by simp
      have "case u of [] \<Rightarrow> False | c # r \<Rightarrow> c = CHR ''.'' \<and> starts_with_digit r"
        using assms nd unfolding starts_number_def by blast
      then have "prefix ''.'' u" by (cases u) simp_all
      then show False using False ru by simp
    qed
    then have "mantissa_ok (Digits ip) \<and> u = mantissa_text (Digits ip) @ r1 \<and>
          \<not> starts_with_digit r1 \<and> (case Digits ip of Digits ip \<Rightarrow> \<not> prefix ''.'' r1 | _ \<Rightarrow> True)"
      using ipd r1d u False by (simp add: decimal_digits_def)
    then show ?thesis by blast
  qed
qed

lemma unsigned_decomposition:
  assumes "starts_number u"
  shows "\<exists>lit tail. literal_ok lit \<and> literal_ends lit tail \<and> sign_text sg @ u = literal_text lit @ tail"
proof (cases "prefix ''Infinity'' u")
  case True
  then obtain tail where "u = ''Infinity'' @ tail" by (auto simp: prefix_def)
  then have "literal_ok (InfinityLiteral sg) \<and> literal_ends (InfinityLiteral sg) tail \<and>
      sign_text sg @ u = literal_text (InfinityLiteral sg) @ tail"
    by simp
  then show ?thesis by blast
next
  case False
  from mantissa_split [OF assms False] obtain m r2 where
    m: "mantissa_ok m" and u: "u = mantissa_text m @ r2" and r2: "\<not> starts_with_digit r2"
    and dot: "case m of Digits ip \<Rightarrow> \<not> prefix ''.'' r2 | _ \<Rightarrow> True"
    by blast
  from exponent_split [OF r2] obtain ex tail where
    ex: "exponent_ok ex" and r2t: "r2 = exponent_text ex @ tail"
    and en: "case ex of NoExponent \<Rightarrow> \<not> starts_exponent tail \<and> tail = r2
            | Exponent c sg es \<Rightarrow> \<not> starts_with_digit tail"
    by blast
  have "literal_ends (DecimalLiteral sg m ex) tail"
    using en r2 dot by (cases ex; cases m) auto
  then have "literal_ok (DecimalLiteral sg m ex) \<and> literal_ends (DecimalLiteral sg m ex) tail \<and>
      sign_text sg @ u = literal_text (DecimalLiteral sg m ex) @ tail"
    using m ex u r2t by simp
  then show ?thesis by blast
qed

lemma longest_literal_exists:
  assumes "numeric_start s"
  shows "\<exists>ws lit tail. list_all isWhiteSpace ws \<and> literal_ok lit \<and> literal_ends lit tail \<and>
           s = ws @ literal_text lit @ tail"
proof -
  define ws where "ws = takeWhile isWhiteSpace s"
  have ws: "list_all isWhiteSpace ws" unfolding ws_def by (induction s) simp_all
  have s: "s = ws @ trimStart s" by (simp add: ws_def trimStart_def)
  obtain c r where t: "trimStart s = c # r"
    using assms by (cases "trimStart s") (simp_all add: numeric_start_def)
  have "\<exists>sg u. starts_number u \<and> trimStart s = sign_text sg @ u"
  proof (cases "c = CHR ''-''")
    case True
    then have "starts_number r \<and> trimStart s = sign_text MinusSign @ r"
      using assms t by (simp add: numeric_start_def)
    then show ?thesis by blast
  next
    case nm: False
    show ?thesis
    proof (cases "c = CHR ''+''")
      case True
      then have "starts_number r \<and> trimStart s = sign_text PlusSign @ r"
        using assms t by (simp add: numeric_start_def)
      then show ?thesis by blast
    next
      case False
      then have "starts_number (c # r) \<and> trimStart s = sign_text NoSign @ c # r"
        using assms t nm by (simp add: numeric_start_def)
      then show ?thesis by blast
    qed
  qed
  then obtain sg u where u: "starts_number u" and tu: "trimStart s = sign_text sg @ u" by blast
  from unsigned_decomposition [OF u, of sg] obtain lit tail where
    "literal_ok lit" "literal_ends lit tail" "sign_text sg @ u = literal_text lit @ tail"
    by blast
  then have "list_all isWhiteSpace ws \<and> literal_ok lit \<and> literal_ends lit tail \<and>
           s = ws @ literal_text lit @ tail"
    using ws s tu by simp
  then show ?thesis by blast
qed

lemma numeric_start_of_literal:
  assumes "list_all isWhiteSpace ws" and "literal_ok lit"
  shows "numeric_start (ws @ literal_text lit @ tail)"
proof -
  define sg where "sg = (case lit of InfinityLiteral sg \<Rightarrow> sg | DecimalLiteral sg m ex \<Rightarrow> sg)"
  define body where "body = drop (length (sign_text sg)) (literal_text lit)"
  have split: "literal_text lit = sign_text sg @ body"
    unfolding body_def sg_def by (cases lit) simp_all
  obtain c r where body: "body = c # r"
    and c: "\<not> isWhiteSpace c" "c \<noteq> CHR ''-''" "c \<noteq> CHR ''+''"
    using body_first [OF assms(2)] unfolding body_def sg_def by blast
  have first: "sign_text sg @ body @ tail = [] \<or> \<not> isWhiteSpace (hd (sign_text sg @ body @ tail))"
    using c(1) by (cases sg) (simp_all add: body isWhiteSpace_def)
  have trimmed: "trimStart (ws @ literal_text lit @ tail) = sign_text sg @ body @ tail"
    unfolding trimStart_def split
    using dropWhile_space_tail [OF assms(1) first] by simp
  have sn: "starts_number (body @ tail)"
  proof (cases lit)
    case (InfinityLiteral sg')
    then have "body = ''Infinity''" by (simp add: body_def sg_def)
    then show ?thesis by (simp add: starts_number_def)
  next
    case (DecimalLiteral sg' m ex)
    then have b: "body = mantissa_text m @ exponent_text ex" and ok: "mantissa_ok m"
      using assms(2) by (simp_all add: body_def sg_def)
    show ?thesis
      using ok unfolding b
      by (cases m) (auto simp: starts_number_def starts_with_digit_def decimal_digits_def neq_Nil_conv)
  qed
  show ?thesis
    unfolding numeric_start_def trimmed
    using sn c by (cases sg) (simp_all add: body)
qed

lemma has_numeric_prefix_iff: "has_numeric_prefix s \<longleftrightarrow> numeric_start s"
proof
  assume "has_numeric_prefix s"
  then show "numeric_start s"
    unfolding has_numeric_prefix_def using numeric_start_of_literal by blast
next
  assume "numeric_start s"
  from longest_literal_exists [OF this] show "has_numeric_prefix s"
    unfolding has_numeric_prefix_def by blast
qed

section \<open>Rows that the callback treats alike\<close>

lemma aggregatedData_cong_row:
  assumes "\<And>m. forEach_body m row = forEach_body m row'"
  shows "aggregatedData (before @ row # after) = aggregatedData (before @ row' # after)"
  by (simp add: aggregatedData_def assms)

lemma aggregatedData_skip_row:
  assumes "\<not> passes_guards row"
  shows "aggregatedData (before @ row # after) = aggregatedData (before @ after)"
  by (simp add: aggregatedData_def forEach_body_skip [OF assms])

lemma foldl_filter_guards:
  "foldl forEach_body m (filter passes_guards rows) = foldl forEach_body m rows"
  by (induction rows arbitrary: m) (simp_all add: forEach_body_skip)

lemma foldl_all_skipped:
  "list_all (\<lambda>row. \<not> passes_guards row) rows \<Longrightarrow> foldl forEach_body m rows = m"
  by (induction rows arbitrary: m) (simp_all add: forEach_body_skip)

lemma processCSVData_nonempty:
  "data \<noteq> [] \<Longrightarrow> consumptionData (processCSVData data prev) = aggregatedData (rows_of data)"
  by (simp add: processCSVData_def)

section \<open>Evaluation on concrete inputs\<close>

lemmas number_eval = number_value_def number_value_pos_def round_even_def ilog2_def
  compute_bitlen power_int_def power_divide Let_def or_zero_def sub_def

lemmas string_eval = skuId_of_def productName_of_def indexOf_def substring_def
  substring_from_def trim_def trimStart_def isWhiteSpace_def isDigit_def

lemmas parse_eval = parseFloat_def unsigned_literal_def exponent_part_def digits_value_def
  digit_value_def

lemmas body_eval = forEach_body_def truthy_at_def Object_prototype_keys_def add_to_item_Cons
  add_to_item_Nil

lemmas out_eval = aggregatedData_def Object_values_def array_index_def array_sort_def
  comes_after_def comparefn_def rows_of_def

lemmas row_eval = passes_guards_def row_id_def row_usage_def row_cost_def rows_with_def

lemmas all_eval = number_eval string_eval parse_eval body_eval out_eval row_eval

lemma parseFloat_zero: "parseFloat ''0'' = Fin 0"
  by (simp add: parse_eval string_eval number_eval)

lemma aggregatedData_ab: "aggregatedData [row_a, row_b] = [item_ab]"
  by (simp add: row_a_def row_b_def item_ab_def all_eval)

text \<open>The example of the specification: two rows of one id add up to one item.\<close>

lemma spec_example_two_rows:
  "consumptionData
     (processCSVData
        [['''', '''', ''B91214 - Compute - E4'', ''OCPU/Hour'', ''100'', '''', '''', '''', ''50.00''],
         ['''', '''', ''B91214 - Compute - E4'', ''OCPU/Hour'', ''150'', '''', '''', '''', ''75.00'']]
        prev) =
   [\<lparr>sku = ''B91214'', productName = ''Compute - E4'', usageAmount = Fin 250,
      unit = ''OCPU/Hour'', cost = Fin 125\<rparr>]"
  by (simp add: processCSVData_def all_eval)

section \<open>The properties\<close>

text \<open>
  C1: the output should hold exactly one item per distinct id found in the rows that pass
  the guards. The row \<open>row_constructor\<close> passes both guards and its id is
  \<open>constructor\<close>, yet the output for it is empty: \<open>skuMap["constructor"]\<close> is the
  inherited \<open>Object\<close> function, which is truthy, so the callback takes the branch for an
  id already seen and never creates the item.
\<close>

theorem C1_row_with_inherited_key_is_lost:
  "passes_guards row_constructor \<and>
   row_id row_constructor = ''constructor'' \<and>
   consumptionData (processCSVData [row_constructor] state0) = []"
  by (simp add: processCSVData_def row_constructor_def state0_def all_eval)

text \<open>
  A quantity or amount cell that does not parse counts as \<open>0\<close>: the row is treated exactly
  as the same row with the cell \<open>0\<close>, wherever it stands in the input; and when the read
  \<open>skuMap[skuId]\<close> is falsy the row creates its item with \<open>0\<close> in those fields.
\<close>

lemma unparsable_number_counts_as_zero:
  "(parseFloat (row ! 4) = NaN \<longrightarrow>
      row_usage row = Fin 0 \<and>
      aggregatedData (before @ row # after) = aggregatedData (before @ row[4 := ''0''] # after)) \<and>
   (parseFloat (row ! 8) = NaN \<longrightarrow>
      row_cost row = Fin 0 \<and>
      aggregatedData (before @ row # after) = aggregatedData (before @ row[8 := ''0''] # after)) \<and>
   (9 \<le> length row \<and> row ! 2 \<noteq> [] \<and> parseFloat (row ! 4) = NaN \<and> parseFloat (row ! 8) = NaN \<and>
    \<not> truthy_at skuMap (skuId_of (row ! 2)) \<longrightarrow>
      forEach_body skuMap row =
        skuMap @ [(skuId_of (row ! 2),
                   \<lparr>sku = skuId_of (row ! 2), productName = productName_of (row ! 2),
                      usageAmount = Fin 0, unit = row ! 3, cost = Fin 0\<rparr>)]) \<and>
   consumptionData (processCSVData [row_x] prev) = [item_x]"
proof (intro conjI impI)
  assume nan: "parseFloat (row ! 4) = NaN"
  show "row_usage row = Fin 0" by (simp add: row_usage_def nan or_zero_def)
  have "forEach_body m row = forEach_body m (row[4 := ''0''])" for m
    by (cases "length row < 9")
       (simp_all add: forEach_body_def Let_def nan or_zero_def parseFloat_zero)
  then show "aggregatedData (before @ row # after) = aggregatedData (before @ row[4 := ''0''] # after)"
    by (rule aggregatedData_cong_row)
next
  assume nan: "parseFloat (row ! 8) = NaN"
  show "row_cost row = Fin 0" by (simp add: row_cost_def nan or_zero_def)
  have "forEach_body m row = forEach_body m (row[8 := ''0''])" for m
    by (cases "length row < 9")
       (simp_all add: forEach_body_def Let_def nan or_zero_def parseFloat_zero)
  then show "aggregatedData (before @ row # after) = aggregatedData (before @ row[8 := ''0''] # after)"
    by (rule aggregatedData_cong_row)
next
  assume "9 \<le> length row \<and> row ! 2 \<noteq> [] \<and> parseFloat (row ! 4) = NaN \<and>
    parseFloat (row ! 8) = NaN \<and> \<not> truthy_at skuMap (skuId_of (row ! 2))"
  then show "forEach_body skuMap row =
        skuMap @ [(skuId_of (row ! 2),
                   \<lparr>sku = skuId_of (row ! 2), productName = productName_of (row ! 2),
                      usageAmount = Fin 0, unit = row ! 3, cost = Fin 0\<rparr>)]"
    by (simp add: forEach_body_def Let_def or_zero_def)
next
  show "consumptionData (processCSVData [row_x] prev) = [item_x]"
    by (simp add: processCSVData_def row_x_def item_x_def all_eval)
qed

text \<open>
  C2: a row whose quantity or amount cell does not parse should still be recorded under
  its id, with \<open>0\<close> in that field, when the id is not present yet. The row
  \<open>row_toString\<close> has 9 cells, the description \<open>toString - T\<close> and two numeric cells
  that do not parse; no item is present, and yet nothing is recorded: the output is
  empty. The read \<open>skuMap["toString"]\<close> finds the function inherited from
  \<open>Object.prototype\<close>, so the callback takes the branch for an id already seen (the
  defect of C1).
\<close>

theorem C2_unparsable_row_with_inherited_key_is_lost:
  "9 \<le> length row_toString \<and>
   trim (row_toString ! 2) \<noteq> [] \<and>
   skuId_of (row_toString ! 2) = ''toString'' \<and>
   parseFloat (row_toString ! 4) = NaN \<and>
   parseFloat (row_toString ! 8) = NaN \<and>
   forEach_body [] row_toString = [] \<and>
   consumptionData (processCSVData [row_toString] state0) = []"
  by (simp add: processCSVData_def row_toString_def state0_def all_eval)

text \<open>
  C3, as the code has it: a row is skipped, leaving the accumulator and the aggregation
  of the other rows as they are, when it has fewer than 9 cells or its description cell
  is the empty string. The cell is tested before any trimming, so a row whose
  description is only white space is not skipped: it is recorded under the empty id.
  A row that passes the two guards is in the output under its id (stated for the ids
  that are not names of properties of \<open>Object.prototype\<close>).
\<close>

theorem C3_rows_skipped_by_the_guards:
  "(length row < 9 \<or> row ! 2 = [] \<longrightarrow>
      forEach_body skuMap row = skuMap \<and>
      aggregatedData (before @ row # after) = aggregatedData (before @ after)) \<and>
   (9 \<le> length row \<and> row ! 2 \<noteq> [] \<and> skuId_of (row ! 2) \<notin> set Object_prototype_keys \<longrightarrow>
      skuId_of (row ! 2) \<in> sku ` set (aggregatedData (before @ row # after)))"
proof (intro conjI impI)
  assume "length row < 9 \<or> row ! 2 = []"
  then have skip: "\<not> passes_guards row" by (auto simp: passes_guards_def)
  show "forEach_body skuMap row = skuMap" by (rule forEach_body_skip [OF skip])
  show "aggregatedData (before @ row # after) = aggregatedData (before @ after)"
    by (rule aggregatedData_skip_row [OF skip])
next
  assume "9 \<le> length row \<and> row ! 2 \<noteq> [] \<and> skuId_of (row ! 2) \<notin> set Object_prototype_keys"
  then have "passes_guards row" "row_id row \<notin> set Object_prototype_keys"
    by (simp_all add: passes_guards_def row_id_def)
  then have "row_id row \<in> sku ` set (aggregatedData (before @ row # after))"
    unfolding skus_aggregatedData by auto
  then show "skuId_of (row ! 2) \<in> sku ` set (aggregatedData (before @ row # after))"
    by (simp add: row_id_def)
qed

theorem C3_witness:
  "length row_short < 9 \<and>
   forEach_body [(''B91214'', item_ab)] row_short = [(''B91214'', item_ab)] \<and>
   aggregatedData ([row_a] @ row_short # [row_b]) = aggregatedData ([row_a] @ [row_b]) \<and>
   9 \<le> length row_blank \<and> row_blank ! 2 \<noteq> [] \<and>
   skuId_of (row_blank ! 2) \<notin> set Object_prototype_keys \<and>
   skuId_of (row_blank ! 2) \<in> sku ` set (aggregatedData ([row_a] @ row_blank # [row_b]))"
proof -
  have h1: "length row_short < 9 \<or> row_short ! 2 = []" by (simp add: row_short_def)
  have h2: "9 \<le> length row_blank \<and> row_blank ! 2 \<noteq> [] \<and>
      skuId_of (row_blank ! 2) \<notin> set Object_prototype_keys"
    by (simp add: row_blank_def string_eval Object_prototype_keys_def)
  show ?thesis
    using h1 h2
      C3_rows_skipped_by_the_guards [of row_short "[(''B91214'', item_ab)]" "[row_a]" "[row_b]"]
      C3_rows_skipped_by_the_guards [of row_blank "[]" "[row_a]" "[row_b]"]
    by (simp add: row_short_def)
qed

text \<open>
  C3 as it is written fails: the description cell of \<open>row_blank\<close> is empty after
  trimming, and the row is not skipped but gives the item with the empty id.
\<close>

theorem C3_counterexample:
  "9 \<le> length row_blank \<and> trim (row_blank ! 2) = [] \<and>
   consumptionData (processCSVData [row_blank] state0) = [item_blank]"
  by (simp add: processCSVData_def row_blank_def item_blank_def state0_def all_eval)

text \<open>
  C4, as the code has it: whenever no amount of the output is \<open>NaN\<close>, the output is in
  non-increasing order of amount. An amount is \<open>NaN\<close> when the rows of one id bring both
  \<open>Infinity\<close> and \<open>-Infinity\<close>; the comparator then answers \<open>NaN\<close> for that item, which
  \<open>sort\<close> reads as a tie, and in \<open>rows_nan\<close> the amounts come out as 1, \<open>NaN\<close>, 2.
\<close>

theorem C4_sorted_unless_NaN:
  assumes "data \<noteq> []"
    and "\<forall>item \<in> set (consumptionData (processCSVData data prev)). cost item \<noteq> NaN"
  shows "descending_by_cost (consumptionData (processCSVData data prev))"
proof -
  have out: "consumptionData (processCSVData data prev) =
      array_sort (Object_values (foldl forEach_body [] (rows_of data)))"
    using assms(1) by (simp add: processCSVData_def aggregatedData_def)
  have "\<forall>z \<in> set (Object_values (foldl forEach_body [] (rows_of data))).
          cost z \<noteq> NaN \<and> representable (cost z)"
  proof
    fix z assume "z \<in> set (Object_values (foldl forEach_body [] (rows_of data)))"
    then have "z \<in> set (aggregatedData (rows_of data))"
      by (simp add: aggregatedData_def set_array_sort)
    then show "cost z \<noteq> NaN \<and> representable (cost z)"
      using assms(2) representable_aggregatedData out
      by (simp add: aggregatedData_def)
  qed
  then show ?thesis unfolding out by (rule descending_array_sort)
qed

theorem C4_witness:
  "rows_sorted \<noteq> [] \<and>
   map cost (consumptionData (processCSVData rows_sorted state0)) = [Fin 3, Fin 2, Fin 1] \<and>
   descending_by_cost (consumptionData (processCSVData rows_sorted state0))"
proof -
  have h1: "rows_sorted \<noteq> []" by (simp add: rows_sorted_def)
  have out: "map cost (consumptionData (processCSVData rows_sorted state0)) = [Fin 3, Fin 2, Fin 1]"
    by (simp add: processCSVData_def rows_sorted_def state0_def all_eval)
  have h2: "\<forall>item \<in> set (consumptionData (processCSVData rows_sorted state0)). cost item \<noteq> NaN"
  proof
    fix item assume "item \<in> set (consumptionData (processCSVData rows_sorted state0))"
    then have "cost item \<in> set (map cost (consumptionData (processCSVData rows_sorted state0)))"
      by simp
    then show "cost item \<noteq> NaN" unfolding out by auto
  qed
  show ?thesis
    using h1 out C4_sorted_unless_NaN [OF h1 h2] by simp
qed

text \<open>
  C4 as it is written fails on \<open>rows_nan\<close>: the amounts of the output are 1, \<open>NaN\<close>, 2.
\<close>

theorem C4_counterexample:
  "map cost (consumptionData (processCSVData rows_nan state0)) = [Fin 1, NaN, Fin 2] \<and>
   \<not> descending_by_cost (consumptionData (processCSVData rows_nan state0))"
  by (simp add: processCSVData_def rows_nan_def state0_def descending_by_cost_def all_eval)

text \<open>
  C5: the first row is left out exactly when its first cell is the sentinel
  \<open>Subscription Plan Number\<close>; the rows after the first are all handed to the callback,
  and the callback never looks at the first cell, so a row that starts with the sentinel
  anywhere else is processed like any other row.
\<close>

theorem C5_header_only_in_first_position:
  "rows_of ((''Subscription Plan Number'' # cells) # rest) = rest \<and>
   (cell \<noteq> ''Subscription Plan Number'' \<longrightarrow>
      rows_of ((cell # cells) # rest) = (cell # cells) # rest) \<and>
   rows_of ([] # rest) = [] # rest \<and>
   (data \<noteq> [] \<longrightarrow>
      consumptionData (processCSVData data prev) = aggregatedData (rows_of data)) \<and>
   aggregatedData (before @ (''Subscription Plan Number'' # cells) # after) =
     aggregatedData (before @ (cell # cells) # after)"
proof (intro conjI impI)
  show "rows_of ((''Subscription Plan Number'' # cells) # rest) = rest"
    by (simp add: rows_of_def)
  show "rows_of ((cell # cells) # rest) = (cell # cells) # rest"
    if "cell \<noteq> ''Subscription Plan Number''"
    using that by (simp add: rows_of_def)
  show "rows_of ([] # rest) = [] # rest"
    by (simp add: rows_of_def)
  show "consumptionData (processCSVData data prev) = aggregatedData (rows_of data)"
    if "data \<noteq> []"
    using that by (rule processCSVData_nonempty)
  have "forEach_body m (''Subscription Plan Number'' # cells) = forEach_body m (cell # cells)" for m
    by (simp add: forEach_body_def Let_def)
  then show "aggregatedData (before @ (''Subscription Plan Number'' # cells) # after) =
     aggregatedData (before @ (cell # cells) # after)"
    by (rule aggregatedData_cong_row)
qed

theorem C5_witness:
  "hd row_a \<noteq> ''Subscription Plan Number'' \<and>
   consumptionData (processCSVData [row_header] state0) = [] \<and>
   consumptionData (processCSVData [row_header, row_header] state0) = [item_header] \<and>
   consumptionData (processCSVData [row_a, row_header] state0) = [item_a, item_header]"
proof -
  have d: "[row_header] \<noteq> []" "[row_header, row_header] \<noteq> []" "[row_a, row_header] \<noteq> []"
    by simp_all
  have na: "hd row_a \<noteq> ''Subscription Plan Number''"
    by (simp add: row_a_def)
  have hdr: "''Subscription Plan Number'' # tl row_header = row_header"
    and a: "hd row_a # tl row_a = row_a"
    by (simp_all add: row_header_def row_a_def)
  note t1 = C5_header_only_in_first_position
    [where cells = "tl row_header" and rest = "[]" and data = "[row_header]" and prev = state0]
  note t2 = C5_header_only_in_first_position
    [where cells = "tl row_header" and rest = "[row_header]" and data = "[row_header, row_header]"
       and prev = state0]
  note t3 = C5_header_only_in_first_position
    [where cells = "tl row_a" and cell = "hd row_a" and rest = "[row_header]"
       and data = "[row_a, row_header]" and prev = state0]
  have r1: "rows_of [row_header] = []"
    using t1 unfolding hdr by blast
  have r2: "rows_of [row_header, row_header] = [row_header]"
    using t2 unfolding hdr by blast
  have r3: "rows_of [row_a, row_header] = [row_a, row_header]"
    using t3 na unfolding a by blast
  have c1: "consumptionData (processCSVData [row_header] state0) = aggregatedData (rows_of [row_header])"
    using t1 d(1) by blast
  have c2: "consumptionData (processCSVData [row_header, row_header] state0) =
      aggregatedData (rows_of [row_header, row_header])"
    using t2 d(2) by blast
  have c3: "consumptionData (processCSVData [row_a, row_header] state0) =
      aggregatedData (rows_of [row_a, row_header])"
    using t3 d(3) by blast
  have e: "aggregatedData [] = []" "aggregatedData [row_header] = [item_header]"
    "aggregatedData [row_a, row_header] = [item_a, item_header]"
    by (simp_all add: row_header_def item_header_def row_a_def item_a_def all_eval)
  show ?thesis
    unfolding c1 c2 c3 r1 r2 r3 e using na by simp
qed

text \<open>
  C6: the description cell is split at the first occurrence of the separator
  \<open>" - "\<close>: the id is the trimmed text before it and the description the trimmed text
  after it; without a separator both are the trimmed cell. A row that passes the guards
  and whose id is not found by the lookup is recorded with that id and description.
\<close>

theorem C6_split_on_first_separator:
  "(s = a @ '' - '' @ b \<and> (\<forall>i < length a. \<not> prefix '' - '' (drop i s)) \<longrightarrow>
      skuId_of s = trim a \<and> productName_of s = trim b) \<and>
   ((\<forall>i \<le> length s. \<not> prefix '' - '' (drop i s)) \<longrightarrow>
      skuId_of s = trim s \<and> productName_of s = trim s) \<and>
   (9 \<le> length row \<and> row ! 2 \<noteq> [] \<and> \<not> truthy_at skuMap (skuId_of (row ! 2)) \<longrightarrow>
      fst (last (forEach_body skuMap row)) = skuId_of (row ! 2) \<and>
      sku (snd (last (forEach_body skuMap row))) = skuId_of (row ! 2) \<and>
      productName (snd (last (forEach_body skuMap row))) = productName_of (row ! 2))"
proof (intro conjI impI)
  assume h: "s = a @ '' - '' @ b \<and> (\<forall>i < length a. \<not> prefix '' - '' (drop i s))"
  from h have s: "s = a @ '' - '' @ b" by (rule conjunct1)
  from h have first: "\<forall>i < length a. \<not> prefix '' - '' (drop i s)" by (rule conjunct2)
  have "prefix '' - '' (drop (length a) s)" unfolding s by simp
  moreover have "length a \<le> length s" unfolding s by simp
  ultimately have idx: "indexOf s '' - '' = int (length a)"
    using indexOf_from_first [of "'' - ''" "length a" s 0] first by (simp add: indexOf_def)
  show "skuId_of s = trim a"
    unfolding skuId_of_def idx Let_def using substring_prefix_part [of a "'' - '' @ b"] s by simp
  show "productName_of s = trim b"
    unfolding productName_of_def idx Let_def
    using substring_from_suffix_part [of a "'' - ''" b] s by simp
next
  assume h: "\<forall>i \<le> length s. \<not> prefix '' - '' (drop i s)"
  then have idx: "indexOf s '' - '' = - 1"
    by (simp add: indexOf_def indexOf_from_absent)
  show "skuId_of s = trim s" by (simp add: skuId_of_def idx)
  show "productName_of s = trim s" by (simp add: productName_of_def idx)
next
  assume h: "9 \<le> length row \<and> row ! 2 \<noteq> [] \<and> \<not> truthy_at skuMap (skuId_of (row ! 2))"
  then have new: "forEach_body skuMap row =
       skuMap @ [(row_id row, \<lparr>sku = row_id row, productName = productName_of (row ! 2),
                   usageAmount = row_usage row, unit = row ! 3, cost = row_cost row\<rparr>)]"
    by (intro forEach_body_new) (simp_all add: passes_guards_def row_id_def)
  show "fst (last (forEach_body skuMap row)) = skuId_of (row ! 2)"
    "sku (snd (last (forEach_body skuMap row))) = skuId_of (row ! 2)"
    "productName (snd (last (forEach_body skuMap row))) = productName_of (row ! 2)"
    unfolding new by (simp_all add: row_id_def)
qed

theorem C6_witness:
  "''B91214 - Compute - E4'' = ''B91214'' @ '' - '' @ ''Compute - E4'' \<and>
   skuId_of ''B91214 - Compute - E4'' = ''B91214'' \<and>
   productName_of ''B91214 - Compute - E4'' = ''Compute - E4'' \<and>
   skuId_of ''  Compute-E4 '' = ''Compute-E4'' \<and>
   productName_of ''  Compute-E4 '' = ''Compute-E4'' \<and>
   9 \<le> length row_a \<and> row_a ! 2 \<noteq> [] \<and> \<not> truthy_at [] (skuId_of (row_a ! 2)) \<and>
   sku (snd (last (forEach_body [] row_a))) = ''B91214'' \<and>
   productName (snd (last (forEach_body [] row_a))) = ''Compute - E4''"
proof -
  have h1: "''B91214 - Compute - E4'' = ''B91214'' @ '' - '' @ ''Compute - E4'' \<and>
      (\<forall>i < length ''B91214''. \<not> prefix '' - '' (drop i ''B91214 - Compute - E4''))"
    by (simp add: less_Suc_eq)
  have h2: "\<forall>i \<le> length ''  Compute-E4 ''. \<not> prefix '' - '' (drop i ''  Compute-E4 '')"
    by (simp add: le_Suc_eq)
  have h3: "9 \<le> length row_a \<and> row_a ! 2 \<noteq> [] \<and> \<not> truthy_at [] (skuId_of (row_a ! 2))"
    by (simp add: row_a_def string_eval truthy_at_def Object_prototype_keys_def)
  have t: "trim ''B91214'' = ''B91214''" "trim ''Compute - E4'' = ''Compute - E4''"
    "trim ''  Compute-E4 '' = ''Compute-E4''"
    by (simp_all add: trim_def isWhiteSpace_def)
  have r: "row_a ! 2 = ''B91214 - Compute - E4''" by (simp add: row_a_def)
  show ?thesis
    using h1 h2 h3
      C6_split_on_first_separator [of "''B91214 - Compute - E4''" "''B91214''" "''Compute - E4''"
        row_a "[]"]
      C6_split_on_first_separator [of "''  Compute-E4 ''" "[]" "[]" "[]" "[]"]
    unfolding t r by simp
qed

text \<open>
  C7, as the code has it: every item of the output takes its description and its unit
  from the first row that passes the two guards of the callback and carries the item's
  id (at least 9 cells, and a description cell that is not the empty string, tested
  before trimming; the unit is the cell at position 3 as it stands), and its quantity
  and amount are that row's values to which the values of the later such rows of the
  same id are added, in order; no later row changes the description or the unit.
\<close>

theorem C7_first_row_fixes_description_and_unit:
  assumes "data \<noteq> []"
    and "item \<in> set (consumptionData (processCSVData data prev))"
  shows "rows_with (sku item) (rows_of data) \<noteq> [] \<and>
    row_id (hd (rows_with (sku item) (rows_of data))) = sku item \<and>
    productName item = productName_of (hd (rows_with (sku item) (rows_of data)) ! 2) \<and>
    unit item = hd (rows_with (sku item) (rows_of data)) ! 3 \<and>
    usageAmount item =
      foldl add (row_usage (hd (rows_with (sku item) (rows_of data))))
        (map row_usage (tl (rows_with (sku item) (rows_of data)))) \<and>
    cost item =
      foldl add (row_cost (hd (rows_with (sku item) (rows_of data))))
        (map row_cost (tl (rows_with (sku item) (rows_of data))))"
proof -
  let ?vs = "rows_with (sku item) (rows_of data)"
  have "(sku item, item) \<in> set (foldl forEach_body [] (rows_of data))"
    using assms by (simp add: processCSVData_nonempty in_aggregatedData)
  from item_foldl [OF this] have main: "?vs \<noteq> []"
    "productName item = productName_of (hd ?vs ! 2)"
    "unit item = hd ?vs ! 3"
    "usageAmount item = foldl add (row_usage (hd ?vs)) (map row_usage (tl ?vs))"
    "cost item = foldl add (row_cost (hd ?vs)) (map row_cost (tl ?vs))"
    by simp_all
  from main(1) have "hd ?vs \<in> set ?vs" by simp
  then have "row_id (hd ?vs) = sku item" by (simp add: rows_with_def)
  with main show ?thesis by simp
qed

theorem C7_witness:
  "[row_a, row_b] \<noteq> [] \<and>
   item_ab \<in> set (consumptionData (processCSVData [row_a, row_b] state0)) \<and>
   rows_with (sku item_ab) (rows_of [row_a, row_b]) = [row_a, row_b] \<and>
   productName item_ab = productName_of (row_a ! 2) \<and>
   unit item_ab = row_a ! 3 \<and>
   unit item_ab \<noteq> row_b ! 3 \<and>
   usageAmount item_ab = add (row_usage row_a) (row_usage row_b) \<and>
   cost item_ab = add (row_cost row_a) (row_cost row_b)"
proof -
  have h1: "[row_a, row_b] \<noteq> []" by simp
  have h2: "item_ab \<in> set (consumptionData (processCSVData [row_a, row_b] state0))"
    unfolding processCSVData_nonempty [OF h1]
    by (simp add: row_a_def row_b_def item_ab_def all_eval)
  have rw: "rows_with (sku item_ab) (rows_of [row_a, row_b]) = [row_a, row_b]"
    by (simp add: row_a_def row_b_def item_ab_def all_eval)
  have "unit item_ab \<noteq> row_b ! 3"
    by (simp add: row_b_def item_ab_def)
  then show ?thesis
    using h1 h2 rw C7_first_row_fixes_description_and_unit [OF h1 h2] by simp
qed

text \<open>
  C7 as it is written fails when "valid" means a description that is not empty after
  trimming: in \<open>[row_ws, row_dash]\<close> both rows have the empty id; the description cell
  of \<open>row_ws\<close> is white space only, so the first valid row of that id would be
  \<open>row_dash\<close>, with unit \<open>U2\<close> and description \<open>foo\<close>; the item has the unit \<open>U1\<close> and
  the empty description of \<open>row_ws\<close>, and the numbers of both rows.
\<close>

theorem C7_counterexample:
  "trim (row_ws ! 2) = [] \<and>
   9 \<le> length row_dash \<and> trim (row_dash ! 2) \<noteq> [] \<and>
   skuId_of (row_dash ! 2) = [] \<and> productName_of (row_dash ! 2) = ''foo'' \<and>
   row_dash ! 3 = ''U2'' \<and>
   consumptionData (processCSVData [row_ws, row_dash] state0) = [item_ws] \<and>
   unit item_ws = ''U1'' \<and> productName item_ws = []"
  by (simp add: processCSVData_def row_ws_def row_dash_def item_ws_def state0_def all_eval)

text \<open>
  C8, as the code has it: no row makes the aggregation fail; rows that miss a guard are
  dropped, so that the output is the one of the remaining rows, and it is empty when a
  non-empty input has no other rows. On an entirely empty input the function returns
  before it writes anything: no output is produced and the state, with the inventory
  shown before, stays as it was.
\<close>

theorem C8_no_output_on_empty_input:
  "processCSVData [] prev = prev \<and>
   (data \<noteq> [] \<and> list_all (\<lambda>row. length row < 9 \<or> row ! 2 = []) (rows_of data) \<longrightarrow>
      consumptionData (processCSVData data prev) = []) \<and>
   aggregatedData rows = aggregatedData (filter (\<lambda>row. 9 \<le> length row \<and> row ! 2 \<noteq> []) rows)"
proof (intro conjI impI)
  show "processCSVData [] prev = prev" by (simp add: processCSVData_def)
next
  assume h: "data \<noteq> [] \<and> list_all (\<lambda>row. length row < 9 \<or> row ! 2 = []) (rows_of data)"
  then have "list_all (\<lambda>row. \<not> passes_guards row) (rows_of data)"
    by (auto simp: passes_guards_def list_all_iff)
  then have "foldl forEach_body [] (rows_of data) = []" by (rule foldl_all_skipped)
  then have "aggregatedData (rows_of data) = []"
    by (simp add: aggregatedData_def Object_values_def array_sort_def)
  then show "consumptionData (processCSVData data prev) = []"
    using h by (simp add: processCSVData_nonempty)
next
  have "(\<lambda>row. 9 \<le> length row \<and> row ! 2 \<noteq> []) = passes_guards"
    by (simp add: fun_eq_iff passes_guards_def)
  then show "aggregatedData rows =
      aggregatedData (filter (\<lambda>row. 9 \<le> length row \<and> row ! 2 \<noteq> []) rows)"
    by (simp add: aggregatedData_def foldl_filter_guards)
qed

theorem C8_witness:
  "processCSVData [] state1 = state1 \<and>
   [row_short, []] \<noteq> [] \<and>
   consumptionData (processCSVData [row_short, []] state1) = [] \<and>
   aggregatedData [row_short, row_a, [], row_b] = [item_ab]"
proof -
  have h: "[row_short, []] \<noteq> [] \<and>
      list_all (\<lambda>row. length row < 9 \<or> row ! 2 = []) (rows_of [row_short, []])"
    by (simp add: rows_of_def row_short_def)
  have f: "filter (\<lambda>row. 9 \<le> length row \<and> row ! 2 \<noteq> []) [row_short, row_a, [], row_b] =
      [row_a, row_b]"
    by (simp add: row_short_def row_a_def row_b_def)
  have "aggregatedData [row_short, row_a, [], row_b] = aggregatedData [row_a, row_b]"
    using C8_no_output_on_empty_input [of state1 "[row_short, []]" "[row_short, row_a, [], row_b]"]
    unfolding f by blast
  then have a: "aggregatedData [row_short, row_a, [], row_b] = [item_ab]"
    by (simp only: aggregatedData_ab)
  show ?thesis
    using h a C8_no_output_on_empty_input [of state1 "[row_short, []]" "[]"]
    by blast
qed

text \<open>
  C8 as it is written fails on the empty input: the inventory of \<open>state1\<close> is still
  there after the call, where the claim expects an empty output.
\<close>

theorem C8_counterexample:
  "consumptionData state1 = [item_ab] \<and>
   consumptionData (processCSVData [] state1) = [item_ab]"
  by (simp add: processCSVData_def state1_def)

text \<open>
  C9: the outcome depends on the input rows only. Running the function again on the same
  rows, from the state that the first run left, gives the same state, and the inventory
  it stores for non-empty rows does not depend on the state it starts from.
\<close>

theorem C9_rerun_gives_same_output:
  "processCSVData data (processCSVData data prev) = processCSVData data prev \<and>
   (data \<noteq> [] \<longrightarrow>
      consumptionData (processCSVData data prev) = consumptionData (processCSVData data prev'))"
  by (simp add: processCSVData_def)

theorem C9_witness:
  "processCSVData [row_a, row_b] (processCSVData [row_a, row_b] state0) =
     processCSVData [row_a, row_b] state0 \<and>
   [row_a, row_b] \<noteq> [] \<and>
   consumptionData (processCSVData [row_a, row_b] state0) =
     consumptionData (processCSVData [row_a, row_b] state1) \<and>
   consumptionData (processCSVData [row_a, row_b] state0) = [item_ab]"
proof -
  have h: "[row_a, row_b] \<noteq> []" by simp
  have e: "consumptionData (processCSVData [row_a, row_b] state0) = [item_ab]"
    unfolding processCSVData_nonempty [OF h] by (simp add: rows_of_def row_a_def aggregatedData_ab [unfolded row_a_def])
  show ?thesis
    using h e C9_rerun_gives_same_output [of "[row_a, row_b]" state0 state1]
    by blast
qed

text \<open>
  C10: a cell that begins with a number and goes on with other characters counts with the
  value of the number. For every literal of the grammar (signed or not, with a fraction
  or an exponent or neither), after any leading white space and before any tail that
  does not continue it, \<open>parseFloat\<close> gives the value of the literal and \<open>|| 0\<close> keeps
  it; the row aggregates exactly like the row whose cell holds the literal alone. Every
  cell with a parsable leading number is of that form. \<open>parseFloat\<close> gives \<open>NaN\<close>, and
  the cell counts as 0, exactly when the cell has no parsable leading number. \<open>12abc\<close>
  gives 12, and the row \<open>row_12abc\<close> is recorded with quantity 12.
\<close>

theorem C10_numeric_prefix_counts:
  "(literal_ok lit \<and> list_all isWhiteSpace ws \<and> literal_ends lit tail \<longrightarrow>
      parseFloat (ws @ literal_text lit @ tail) = literal_value lit \<and>
      or_zero (parseFloat (ws @ literal_text lit @ tail)) = literal_value lit) \<and>
   (literal_ok lit \<and> list_all isWhiteSpace ws \<and> literal_ends lit tail \<and>
    row ! 4 = ws @ literal_text lit @ tail \<longrightarrow>
      row_usage row = literal_value lit \<and>
      aggregatedData (before @ row # after) =
        aggregatedData (before @ row[4 := literal_text lit] # after)) \<and>
   (literal_ok lit \<and> list_all isWhiteSpace ws \<and> literal_ends lit tail \<and>
    row ! 8 = ws @ literal_text lit @ tail \<longrightarrow>
      row_cost row = literal_value lit \<and>
      aggregatedData (before @ row # after) =
        aggregatedData (before @ row[8 := literal_text lit] # after)) \<and>
   (has_numeric_prefix cell \<longrightarrow>
      (\<exists>ws' lit' tail'. list_all isWhiteSpace ws' \<and> literal_ok lit' \<and> literal_ends lit' tail' \<and>
         cell = ws' @ literal_text lit' @ tail')) \<and>
   (parseFloat cell = NaN \<longleftrightarrow> \<not> has_numeric_prefix cell) \<and>
   (has_numeric_prefix cell \<longleftrightarrow> numeric_start cell) \<and>
   or_zero (parseFloat cell) = (if has_numeric_prefix cell then parseFloat cell else Fin 0) \<and>
   parseFloat ''12abc'' = Fin 12 \<and>
   consumptionData (processCSVData [row_12abc] prev) = [item_12abc]"
proof -
  have alone: "parseFloat (literal_text l) = literal_value l" if "literal_ok l" for l
  proof -
    have "literal_ends l []" by (rule literal_ends_Nil)
    from parseFloat_literal [OF that _ this, of "[]"] show ?thesis by simp
  qed
  have sound: "parseFloat (ws @ literal_text lit @ tail) = literal_value lit"
    if "literal_ok lit \<and> list_all isWhiteSpace ws \<and> literal_ends lit tail"
    using that by (intro parseFloat_literal) simp_all
  have nan: "parseFloat cell = NaN \<longleftrightarrow> \<not> has_numeric_prefix cell"
    by (simp add: parseFloat_NaN_iff has_numeric_prefix_iff)
  have c1: "literal_ok lit \<and> list_all isWhiteSpace ws \<and> literal_ends lit tail \<longrightarrow>
      parseFloat (ws @ literal_text lit @ tail) = literal_value lit \<and>
      or_zero (parseFloat (ws @ literal_text lit @ tail)) = literal_value lit"
    using sound by (simp add: or_zero_literal_value)
  have c2: "literal_ok lit \<and> list_all isWhiteSpace ws \<and> literal_ends lit tail \<and>
    row ! 4 = ws @ literal_text lit @ tail \<longrightarrow>
      row_usage row = literal_value lit \<and>
      aggregatedData (before @ row # after) =
        aggregatedData (before @ row[4 := literal_text lit] # after)"
  proof (intro impI conjI)
    assume h: "literal_ok lit \<and> list_all isWhiteSpace ws \<and> literal_ends lit tail \<and>
      row ! 4 = ws @ literal_text lit @ tail"
    then have p: "parseFloat (row ! 4) = literal_value lit" using sound by simp
    have q: "parseFloat (literal_text lit) = literal_value lit" using h alone by simp
    show "row_usage row = literal_value lit"
      by (simp add: row_usage_def p or_zero_literal_value)
    have "forEach_body m row = forEach_body m (row[4 := literal_text lit])" for m
      by (cases "length row < 9") (simp_all add: forEach_body_def Let_def p q)
    then show "aggregatedData (before @ row # after) =
        aggregatedData (before @ row[4 := literal_text lit] # after)"
      by (rule aggregatedData_cong_row)
  qed
  have c3: "literal_ok lit \<and> list_all isWhiteSpace ws \<and> literal_ends lit tail \<and>
    row ! 8 = ws @ literal_text lit @ tail \<longrightarrow>
      row_cost row = literal_value lit \<and>
      aggregatedData (before @ row # after) =
        aggregatedData (before @ row[8 := literal_text lit] # after)"
  proof (intro impI conjI)
    assume h: "literal_ok lit \<and> list_all isWhiteSpace ws \<and> literal_ends lit tail \<and>
      row ! 8 = ws @ literal_text lit @ tail"
    then have p: "parseFloat (row ! 8) = literal_value lit" using sound by simp
    have q: "parseFloat (literal_text lit) = literal_value lit" using h alone by simp
    show "row_cost row = literal_value lit"
      by (simp add: row_cost_def p or_zero_literal_value)
    have "forEach_body m row = forEach_body m (row[8 := literal_text lit])" for m
      by (cases "length row < 9") (simp_all add: forEach_body_def Let_def p q)
    then show "aggregatedData (before @ row # after) =
        aggregatedData (before @ row[8 := literal_text lit] # after)"
      by (rule aggregatedData_cong_row)
  qed
  have c4: "has_numeric_prefix cell \<longrightarrow>
      (\<exists>ws' lit' tail'. list_all isWhiteSpace ws' \<and> literal_ok lit' \<and> literal_ends lit' tail' \<and>
         cell = ws' @ literal_text lit' @ tail')"
    using longest_literal_exists [of cell] by (simp add: has_numeric_prefix_iff)
  have c6: "or_zero (parseFloat cell) = (if has_numeric_prefix cell then parseFloat cell else Fin 0)"
    using nan by (auto simp: or_zero_def)
  have c7: "parseFloat ''12abc'' = Fin 12"
    by (simp add: parse_eval string_eval number_eval)
  have c8: "consumptionData (processCSVData [row_12abc] prev) = [item_12abc]"
    by (simp add: processCSVData_def row_12abc_def item_12abc_def all_eval)
  have c5: "has_numeric_prefix cell \<longleftrightarrow> numeric_start cell"
    by (rule has_numeric_prefix_iff)
  from c1 c2 c3 c4 nan c5 c6 c7 c8 show ?thesis by blast
qed

theorem C10_witness:
  "literal_ok lit_fraction \<and> list_all isWhiteSpace '' '' \<and> literal_ends lit_fraction ''each'' \<and>
   '' '' @ literal_text lit_fraction @ ''each'' = '' -12.5e+1each'' \<and>
   parseFloat '' -12.5e+1each'' = Fin (- 125) \<and>
   literal_ok lit_digits \<and> literal_ends lit_digits ''each'' \<and>
   parseFloat ''12each'' = Fin 12 \<and>
   row_usage row_prefixes = Fin (- 125) \<and>
   row_cost row_prefixes = Fin 12 \<and>
   aggregatedData [row_a, row_prefixes, row_b] =
     aggregatedData [row_a, row_prefixes[4 := ''-12.5e+1''], row_b] \<and>
   aggregatedData [row_a, row_prefixes, row_b] =
     aggregatedData [row_a, row_prefixes[8 := ''12''], row_b] \<and>
   has_numeric_prefix ''12abc'' \<and> numeric_start ''12abc'' \<and>
   parseFloat ''abc'' = NaN \<and> \<not> has_numeric_prefix ''abc'' \<and> \<not> numeric_start ''abc'' \<and>
   or_zero (parseFloat ''abc'') = Fin 0 \<and>
   or_zero (parseFloat ''12abc'') = Fin 12"
proof -
  have ok: "literal_ok lit_fraction" "list_all isWhiteSpace '' ''" "literal_ends lit_fraction ''each''"
    "literal_ok lit_digits" "list_all isWhiteSpace []" "literal_ends lit_digits ''each''"
    by (simp_all add: lit_fraction_def lit_digits_def decimal_digits_def isDigit_def
        isWhiteSpace_def starts_with_digit_def starts_exponent_def)
  have tx: "'' '' @ literal_text lit_fraction @ ''each'' = '' -12.5e+1each''"
    "[] @ literal_text lit_digits @ ''each'' = ''12each''"
    "literal_text lit_fraction = ''-12.5e+1''" "literal_text lit_digits = ''12''"
    by (simp_all add: lit_fraction_def lit_digits_def)
  have vl: "literal_value lit_fraction = Fin (- 125)" "literal_value lit_digits = Fin 12"
    by (simp_all add: lit_fraction_def lit_digits_def digits_value_def digit_value_def number_eval)
  have cells: "row_prefixes ! 4 = '' '' @ literal_text lit_fraction @ ''each''"
    "row_prefixes ! 8 = [] @ literal_text lit_digits @ ''each''"
    by (simp_all add: row_prefixes_def lit_fraction_def lit_digits_def)
  note t1 = C10_numeric_prefix_counts
    [where lit = lit_fraction and ws = "'' ''" and tail = "''each''" and row = row_prefixes
       and before = "[row_a]" and after = "[row_b]" and cell = "''12abc''" and prev = state0]
  note t2 = C10_numeric_prefix_counts
    [where lit = lit_digits and ws = "[]" and tail = "''each''" and row = row_prefixes
       and before = "[row_a]" and after = "[row_b]" and cell = "''abc''" and prev = state0]
  have p1: "parseFloat ('' '' @ literal_text lit_fraction @ ''each'') = literal_value lit_fraction"
    using t1 ok by blast
  have p2: "parseFloat ([] @ literal_text lit_digits @ ''each'') = literal_value lit_digits"
    using t2 ok by blast
  have u: "row_usage row_prefixes = literal_value lit_fraction"
    "aggregatedData ([row_a] @ row_prefixes # [row_b]) =
       aggregatedData ([row_a] @ row_prefixes[4 := literal_text lit_fraction] # [row_b])"
    using t1 ok cells(1) by blast+
  have c: "row_cost row_prefixes = literal_value lit_digits"
    "aggregatedData ([row_a] @ row_prefixes # [row_b]) =
       aggregatedData ([row_a] @ row_prefixes[8 := literal_text lit_digits] # [row_b])"
    using t2 ok cells(2) by blast+
  have twelve: "parseFloat ''12abc'' = Fin 12" using t1 by blast
  then have "parseFloat ''12abc'' \<noteq> NaN" by simp
  then have hp: "has_numeric_prefix ''12abc''" using t1 by blast
  then have "\<exists>ws' lit' tail'. list_all isWhiteSpace ws' \<and> literal_ok lit' \<and> literal_ends lit' tail' \<and>
         ''12abc'' = ws' @ literal_text lit' @ tail'"
    using t1 by blast
  have "or_zero (parseFloat ''12abc'') =
      (if has_numeric_prefix ''12abc'' then parseFloat ''12abc'' else Fin 0)"
    using t1 by blast
  then have oz: "or_zero (parseFloat ''12abc'') = Fin 12" by (simp only: hp if_True twelve)
  have n: "parseFloat ''abc'' = NaN" by (simp add: parse_eval string_eval)
  then have nh: "\<not> has_numeric_prefix ''abc''" using t2 by blast
  have "or_zero (parseFloat ''abc'') =
      (if has_numeric_prefix ''abc'' then parseFloat ''abc'' else Fin 0)"
    using t2 by blast
  then have z: "or_zero (parseFloat ''abc'') = Fin 0" by (simp only: nh if_False)
  have "has_numeric_prefix ''12abc'' \<longleftrightarrow> numeric_start ''12abc''" using t1 by blast
  then have ns1: "numeric_start ''12abc''" using hp by blast
  have "has_numeric_prefix ''abc'' \<longleftrightarrow> numeric_start ''abc''" using t2 by blast
  then have ns2: "\<not> numeric_start ''abc''" using nh by blast
  have first: "literal_ok lit_fraction \<and> list_all isWhiteSpace '' '' \<and>
      literal_ends lit_fraction ''each'' \<and>
      '' '' @ literal_text lit_fraction @ ''each'' = '' -12.5e+1each'' \<and>
      parseFloat '' -12.5e+1each'' = Fin (- 125) \<and>
      literal_ok lit_digits \<and> literal_ends lit_digits ''each'' \<and>
      parseFloat ''12each'' = Fin 12"
    using ok p1 [unfolded tx vl] p2 [unfolded tx vl, simplified] tx(1) by simp
  have second: "row_usage row_prefixes = Fin (- 125) \<and>
      row_cost row_prefixes = Fin 12 \<and>
      aggregatedData [row_a, row_prefixes, row_b] =
        aggregatedData [row_a, row_prefixes[4 := ''-12.5e+1''], row_b] \<and>
      aggregatedData [row_a, row_prefixes, row_b] =
        aggregatedData [row_a, row_prefixes[8 := ''12''], row_b]"
    using u [unfolded vl tx] c [unfolded vl tx] by simp
  from first second hp ns1 n nh ns2 z oz show ?thesis by blast
qed

end
